theory Spec2Isabelle
  imports Complex_Main
begin

section \<open>Python values and the exceptions of the fetcher\<close>

text \<open>
  The source is \<^verbatim>\<open>coronaviz/backend/data/uk/covid.py\<close>. Python strings are modelled
  as \<^typ>\<open>string\<close>, one \<^typ>\<open>char\<close> per code point below 256. A parsed JSON document is a
  Python value; a dictionary is an association list in insertion order with distinct keys.
  Floating point numbers are carried around but never computed with.
\<close>

datatype pyval =
    PNone
  | PBool bool
  | PInt int
  | PFloat real
  | PStr string
  | PList "pyval list"
  | PDict "(string \<times> pyval) list"

text \<open>
  The exceptions that can leave \<^verbatim>\<open>get_paginated_dataset\<close>: the \<^verbatim>\<open>RuntimeError\<close> it
  raises itself, and the ones raised by the library calls and subscripts it makes.
\<close>

datatype error =
    RuntimeError string
  | RequestException
  | UnicodeDecodeError
  | JSONDecodeError
  | KeyError string
  | TypeError

text \<open>\<^verbatim>\<open>v[key]\<close> for a string key: only a dictionary can be subscripted by one.\<close>

fun subscript :: "pyval \<Rightarrow> string \<Rightarrow> error + pyval" where
  "subscript (PDict kvs) k =
     (case map_of kvs k of None \<Rightarrow> Inl (KeyError k) | Some v \<Rightarrow> Inr v)"
| "subscript _ k = Inl TypeError"

text \<open>
  \<^verbatim>\<open>data.extend(page_data)\<close>: a list gives its elements, a string its characters, a
  dictionary its keys; any other value is not iterable.
\<close>

fun list_extend :: "pyval list \<Rightarrow> pyval \<Rightarrow> error + pyval list" where
  "list_extend data (PList xs) = Inr (data @ xs)"
| "list_extend data (PStr s) = Inr (data @ map (\<lambda>c. PStr [c]) s)"
| "list_extend data (PDict kvs) = Inr (data @ map (\<lambda>kv. PStr (fst kv)) kvs)"
| "list_extend data _ = Inl TypeError"

section \<open>String operations\<close>

definition NL :: char where
  "NL = CHR 0x0A"

text \<open>\<^verbatim>\<open>str.join(sep, items)\<close> on strings.\<close>

fun join :: "string \<Rightarrow> string list \<Rightarrow> string" where
  "join sep [] = []"
| "join sep [x] = x"
| "join sep (x # y # ys) = x @ sep @ join sep (y # ys)"

text \<open>\<^verbatim>\<open>str.join(sep, data)\<close> on a list of Python values: every item must be a string.\<close>

fun the_strs :: "pyval list \<Rightarrow> string list option" where
  "the_strs [] = Some []"
| "the_strs (PStr s # vs) = (case the_strs vs of None \<Rightarrow> None | Some ss \<Rightarrow> Some (s # ss))"
| "the_strs (_ # vs) = None"

definition join_values :: "string \<Rightarrow> pyval list \<Rightarrow> error + string" where
  "join_values sep vs =
     (case the_strs vs of None \<Rightarrow> Inl TypeError | Some ss \<Rightarrow> Inr (join sep ss))"

text \<open>\<^verbatim>\<open>s.split(sep)\<close> for a one-character separator: never the empty list.\<close>

fun split :: "char \<Rightarrow> string \<Rightarrow> string list" where
  "split sep [] = [[]]"
| "split sep (c # cs) =
     (if c = sep then [] # split sep cs
      else (case split sep cs of [] \<Rightarrow> [[c]] | l # ls \<Rightarrow> (c # l) # ls))"

text \<open>
  The characters \<^verbatim>\<open>str.strip()\<close> removes, among the code points below 256:
  U+0009 to U+000D, U+001C to U+0020, U+0085 and U+00A0.
\<close>

definition is_space :: "char \<Rightarrow> bool" where
  "is_space c =
     (let n = of_char c :: nat
      in (9 \<le> n \<and> n \<le> 13) \<or> (28 \<le> n \<and> n \<le> 32) \<or> n = 133 \<or> n = 160)"

definition strip :: "string \<Rightarrow> string" where
  "strip s = rev (dropWhile is_space (rev (dropWhile is_space s)))"

section \<open>Compact JSON serialisation of the structure\<close>

text \<open>
  \<^verbatim>\<open>StructureType = Dict[str, Union[dict, str]]\<close>: a value of the structure is a field name
  or a nested structure.
\<close>

datatype struct_value = Field string | Nested "(string \<times> struct_value) list"

type_synonym StructureType = "(string \<times> struct_value) list"

definition hex_digit :: "nat \<Rightarrow> char" where
  "hex_digit n = (if n < 10 then char_of (48 + n) else char_of (87 + n))"

text \<open>
  The escaping of \<^verbatim>\<open>json.dumps\<close> with its default \<^verbatim>\<open>ensure_ascii=True\<close>: the quote and
  the backslash are escaped, the printable ASCII characters stand for themselves, and every
  other character is a short escape or \<^verbatim>\<open>\u00xx\<close> in lower case.
\<close>

definition escape_char :: "char \<Rightarrow> string" where
  "escape_char c =
     (let n = of_char c :: nat in
      if n = 34 then [CHR 0x5C, CHR 0x22]
      else if n = 92 then [CHR 0x5C, CHR 0x5C]
      else if n = 10 then [CHR 0x5C, CHR ''n'']
      else if n = 13 then [CHR 0x5C, CHR ''r'']
      else if n = 9 then [CHR 0x5C, CHR ''t'']
      else if n = 12 then [CHR 0x5C, CHR ''f'']
      else if n = 8 then [CHR 0x5C, CHR ''b'']
      else if 32 \<le> n \<and> n \<le> 126 then [c]
      else [CHR 0x5C, CHR ''u'', CHR ''0'', CHR ''0'', hex_digit (n div 16), hex_digit (n mod 16)])"

definition encode_str :: "string \<Rightarrow> string" where
  "encode_str s = [CHR 0x22] @ concat (map escape_char s) @ [CHR 0x22]"

text \<open>\<^verbatim>\<open>dumps(structure, separators=(",", ":"))\<close>.\<close>

fun dumps_value :: "struct_value \<Rightarrow> string"
  and dumps_items :: "(string \<times> struct_value) list \<Rightarrow> string list" where
  "dumps_value (Field s) = encode_str s"
| "dumps_value (Nested kvs) = ''{'' @ join '','' (dumps_items kvs) @ ''}''"
| "dumps_items [] = []"
| "dumps_items (kv # kvs) =
     (encode_str (fst kv) @ '':'' @ dumps_value (snd kv)) # dumps_items kvs"

definition dumps :: "StructureType \<Rightarrow> string" where
  "dumps struct = dumps_value (Nested struct)"

text \<open>The keys and field names written in a structure, nested ones included.\<close>

fun value_strings :: "struct_value \<Rightarrow> string list"
  and items_strings :: "(string \<times> struct_value) list \<Rightarrow> string list" where
  "value_strings (Field s) = [s]"
| "value_strings (Nested kvs) = items_strings kvs"
| "items_strings [] = []"
| "items_strings (kv # kvs) = fst kv # value_strings (snd kv) @ items_strings kvs"

definition space_free :: "StructureType \<Rightarrow> bool" where
  "space_free struct = list_all (\<lambda>s. CHR '' '' \<notin> set s) (items_strings struct)"

section \<open>Dictionaries and the default query structure\<close>

text \<open>
  \<^verbatim>\<open>d[k] = v\<close> on a dictionary kept in insertion order: a key that is present keeps its
  place and takes the new value, a new key goes to the end.
\<close>

fun setitem :: "('k \<times> 'v) list \<Rightarrow> 'k \<Rightarrow> 'v \<Rightarrow> ('k \<times> 'v) list" where
  "setitem [] k v = [(k, v)]"
| "setitem (p # ps) k v = (if fst p = k then (k, v) # ps else p # setitem ps k v)"

text \<open>
  A dictionary display \<^verbatim>\<open>{k1: v1, k2: v2, ...}\<close> stores its entries from left to right
  into an empty dictionary.
\<close>

definition dict_display :: "('k \<times> 'v) list \<Rightarrow> ('k \<times> 'v) list" where
  "dict_display entries = foldl (\<lambda>d kv. setitem d (fst kv) (snd kv)) [] entries"

text \<open>The entries of the display at lines 41 to 77 of the source, as written there.\<close>

definition DEFAULT_QUERY_STRUCTURE_entries :: "(string \<times> struct_value) list" where
  "DEFAULT_QUERY_STRUCTURE_entries =
    [
     (''areaType'', Field ''areaType''),
     (''areaName'', Field ''areaName''),
     (''areaCode'', Field ''areaCode''),
     (''date'', Field ''date''),
     (''hash'', Field ''hash''),
     (''newCasesByPublishDate'', Field ''newCasesByPublishDate''),
     (''cumCasesByPublishDate'', Field ''cumCasesByPublishDate''),
     (''cumCasesBySpecimenDateRate'', Field ''cumCasesBySpecimenDateRate''),
     (''newCasesBySpecimenDate'', Field ''newCasesBySpecimenDate''),
     (''cumCasesBySpecimenDateRate'', Field ''cumCasesBySpecimenDateRate''),
     (''cumCasesBySpecimenDate'', Field ''cumCasesBySpecimenDate''),
     (''maleCases'', Field ''maleCases''),
     (''femaleCases'', Field ''femaleCases''),
     (''newPillarOneTestsByPublishDate'', Field ''newPillarOneTestsByPublishDate''),
     (''cumPillarOneTestsByPublishDate'', Field ''cumPillarOneTestsByPublishDate''),
     (''newPillarTwoTestsByPublishDate'', Field ''newPillarTwoTestsByPublishDate''),
     (''cumPillarTwoTestsByPublishDate'', Field ''cumPillarTwoTestsByPublishDate''),
     (''newPillarThreeTestsByPublishDate'', Field ''newPillarThreeTestsByPublishDate''),
     (''cumPillarThreeTestsByPublishDate'', Field ''cumPillarThreeTestsByPublishDate''),
     (''newPillarFourTestsByPublishDate'', Field ''newPillarFourTestsByPublishDate''),
     (''cumPillarFourTestsByPublishDate'', Field ''cumPillarFourTestsByPublishDate''),
     (''newAdmissions'', Field ''newAdmissions''),
     (''cumAdmissions'', Field ''cumAdmissions''),
     (''cumAdmissionsByAge'', Field ''cumAdmissionsByAge''),
     (''cumTestsByPublishDate'', Field ''cumTestsByPublishDate''),
     (''newTestsByPublishDate'', Field ''newTestsByPublishDate''),
     (''covidOccupiedMVBeds'', Field ''covidOccupiedMVBeds''),
     (''hospitalCases'', Field ''hospitalCases''),
     (''plannedCapacityByPublishDate'', Field ''plannedCapacityByPublishDate''),
     (''newDeaths28DaysByPublishDate'', Field ''newDeaths28DaysByPublishDate''),
     (''cumDeaths28DaysByPublishDate'', Field ''cumDeaths28DaysByPublishDate''),
     (''cumDeaths28DaysByPublishDateRate'', Field ''cumDeaths28DaysByPublishDateRate''),
     (''newDeaths28DaysByDeathDate'', Field ''newDeaths28DaysByDeathDate''),
     (''cumDeaths28DaysByDeathDate'', Field ''cumDeaths28DaysByDeathDate''),
     (''cumDeaths28DaysByDeathDateRate'', Field ''cumDeaths28DaysByDeathDateRate'')
    ]"

definition DEFAULT_QUERY_STRUCTURE :: StructureType where
  "DEFAULT_QUERY_STRUCTURE = dict_display DEFAULT_QUERY_STRUCTURE_entries"

datatype AreaTypeEnum =
    OVERVIEW
  | NATION
  | REGION
  | NHS_REGION
  | UPPER_TIER_LOCAL_AUTHORITY
  | LOWER_TIER_LOCAL_AUTHORITY

fun enum_value :: "AreaTypeEnum \<Rightarrow> string" where
  "enum_value OVERVIEW = ''overview''"
| "enum_value NATION = ''nation''"
| "enum_value REGION = ''region''"
| "enum_value NHS_REGION = ''nhsRegion''"
| "enum_value UPPER_TIER_LOCAL_AUTHORITY = ''utla''"
| "enum_value LOWER_TIER_LOCAL_AUTHORITY = ''ltla''"

section \<open>The HTTP exchange\<close>

text \<open>
  A request is the call \<^verbatim>\<open>get(endpoint, params=api_params, timeout=10)\<close>: the endpoint,
  the four query parameters and the timeout.
\<close>

record request =
  endpoint :: string
  filters_param :: string
  structure_param :: string
  format_param :: string
  page_param :: int
  timeout :: int

text \<open>
  A response is what the code reads from it: \<^verbatim>\<open>status_code\<close>, \<^verbatim>\<open>text\<close>,
  \<^verbatim>\<open>content.decode()\<close> (\<open>None\<close> when the bytes are not UTF-8) and \<^verbatim>\<open>json()\<close>
  (\<open>None\<close> when the body is not a JSON document). The four are independent here; the
  library derives them from one body.
\<close>

record response =
  status_code :: int
  resp_text :: string
  content_decode :: "string option"
  json :: "pyval option"

text \<open>
  The network is the sequence of outcomes of the calls to \<^verbatim>\<open>get\<close>, in call order: the
  \<open>k\<close>-th call (from 0) returns \<open>net k\<close>, a response, or \<open>None\<close> when \<^verbatim>\<open>get\<close> itself
  raises (a timeout, a connection failure).
\<close>

type_synonym network = "nat \<Rightarrow> response option"

definition BAD_REQUEST :: int where
  "BAD_REQUEST = 400"

definition NO_CONTENT :: int where
  "NO_CONTENT = 204"

section \<open>The pagination loop\<close>

text \<open>How one pass through the body of \<^verbatim>\<open>while True\<close> ends.\<close>

datatype outcome =
    Raise error
  | Break "pyval list"
  | Next_page "pyval list"

text \<open>
  Lines 132 to 160: the body of the loop after the response has arrived, on the current
  page number and the accumulated \<^verbatim>\<open>data\<close>. \<open>Next_page\<close> stands for the two places that
  increment \<^verbatim>\<open>page_number\<close> and go round again.
\<close>

definition loop_body :: "bool \<Rightarrow> int \<Rightarrow> pyval list \<Rightarrow> response \<Rightarrow> outcome" where
  "loop_body as_csv page_number data response =
     (if status_code response \<ge> BAD_REQUEST then
        Raise (RuntimeError (''Request failed: '' @ resp_text response))
      else if status_code response = NO_CONTENT then Break data
      else if as_csv then
        (case content_decode response of
           None \<Rightarrow> Raise UnicodeDecodeError
         | Some csv_content \<Rightarrow>
             (let csv_content' =
                    (if page_number > 1
                     then join [NL] (drop 1 (split NL csv_content))
                     else csv_content)
              in Next_page (data @ [PStr (strip csv_content')])))
      else
        (case json response of
           None \<Rightarrow> Raise JSONDecodeError
         | Some current_data \<Rightarrow>
             (case subscript current_data ''data'' of
                Inl e \<Rightarrow> Raise e
              | Inr page_data \<Rightarrow>
                  (case list_extend data page_data of
                     Inl e \<Rightarrow> Raise e
                   | Inr data' \<Rightarrow>
                       (case subscript current_data ''pagination'' of
                          Inl e \<Rightarrow> Raise e
                        | Inr pagination \<Rightarrow>
                            (case subscript pagination ''next'' of
                               Inl e \<Rightarrow> Raise e
                             | Inr nxt \<Rightarrow>
                                 if nxt = PNone then Break data' else Next_page data'))))))"

definition mk_request :: "string \<Rightarrow> string \<Rightarrow> string \<Rightarrow> int \<Rightarrow> request" where
  "mk_request fs st fm page_number =
     \<lparr>endpoint = ''https://api.coronavirus.data.gov.uk/v1/data'',
      filters_param = fs, structure_param = st, format_param = fm,
      page_param = page_number, timeout = 10\<rparr>"

text \<open>
  Lines 126 to 160. The loop can run for ever, so it is given fuel, one unit per request.
  It returns what the loop ended with (\<open>None\<close> when the fuel ran out while it was still
  running) and the requests sent so far, oldest first.
\<close>

fun page_loop ::
  "nat \<Rightarrow> network \<Rightarrow> (int \<Rightarrow> request) \<Rightarrow> bool \<Rightarrow> int \<Rightarrow> pyval list \<Rightarrow> request list
     \<Rightarrow> (error + pyval list) option \<times> request list" where
  "page_loop 0 net api_params as_csv page_number data sent = (None, sent)"
| "page_loop (Suc fuel) net api_params as_csv page_number data sent =
     (let sent' = sent @ [api_params page_number] in
      case net (length sent) of
        None \<Rightarrow> (Some (Inl RequestException), sent')
      | Some response \<Rightarrow>
          (case loop_body as_csv page_number data response of
             Raise e \<Rightarrow> (Some (Inl e), sent')
           | Break data' \<Rightarrow> (Some (Inr data'), sent')
           | Next_page data' \<Rightarrow>
               page_loop fuel net api_params as_csv (page_number + 1) data' sent'))"

text \<open>Lines 162 to 166: the list itself, or the pages joined by newlines.\<close>

definition finish :: "bool \<Rightarrow> pyval list \<Rightarrow> error + pyval" where
  "finish as_csv data =
     (if \<not> as_csv then Inr (PList data)
      else (case join_values [NL] data of Inl e \<Rightarrow> Inl e | Inr s \<Rightarrow> Inr (PStr s)))"

definition get_paginated_dataset ::
  "nat \<Rightarrow> network \<Rightarrow> string list \<Rightarrow> StructureType \<Rightarrow> bool
     \<Rightarrow> (error + pyval) option \<times> request list" where
  "get_paginated_dataset fuel net filters struct as_csv =
     (let api_params =
            mk_request (join '';'' filters) (dumps struct)
              (if \<not> as_csv then ''json'' else ''csv'')
      in case page_loop fuel net api_params as_csv 1 [] [] of
           (None, sent) \<Rightarrow> (None, sent)
         | (Some (Inl e), sent) \<Rightarrow> (Some (Inl e), sent)
         | (Some (Inr data), sent) \<Rightarrow> (Some (finish as_csv data), sent))"

definition get_latest_data ::
  "nat \<Rightarrow> network \<Rightarrow> string list option \<Rightarrow> StructureType option
     \<Rightarrow> (error + pyval) option \<times> request list" where
  "get_latest_data fuel net filters struct =
     (let filters' = (case filters of
                        None \<Rightarrow> [''areaType='' @ enum_value REGION]
                      | Some fs \<Rightarrow> fs);
          struct' = (case struct of
                       None \<Rightarrow> DEFAULT_QUERY_STRUCTURE
                     | Some s \<Rightarrow> s)
      in get_paginated_dataset fuel net filters' struct' False)"

section \<open>Pages, as the claims speak of them\<close>

text \<open>A status that is neither an error (400 and above) nor 204.\<close>

definition data_status :: "response \<Rightarrow> bool" where
  "data_status r = (status_code r < 400 \<and> status_code r \<noteq> 204)"

text \<open>
  A JSON page in the words of the specification: a response with a data status whose body
  is a JSON document with a sequence under \<^verbatim>\<open>data\<close> and a value under
  \<^verbatim>\<open>pagination.next\<close>. The result is that sequence and that value.
\<close>

definition json_page :: "response \<Rightarrow> (pyval list \<times> pyval) option" where
  "json_page r =
     (if \<not> data_status r then None
      else case json r of
        None \<Rightarrow> None
      | Some doc \<Rightarrow>
          (case subscript doc ''data'' of
             Inr (PList recs) \<Rightarrow>
               (case subscript doc ''pagination'' of
                  Inr pg \<Rightarrow>
                    (case subscript pg ''next'' of
                       Inr nxt \<Rightarrow> Some (recs, nxt)
                     | Inl _ \<Rightarrow> None)
                | Inl _ \<Rightarrow> None)
           | _ \<Rightarrow> None))"

definition iterable :: "pyval \<Rightarrow> bool" where
  "iterable v = (case list_extend [] v of Inl _ \<Rightarrow> False | Inr _ \<Rightarrow> True)"

definition lacks :: "pyval \<Rightarrow> string \<Rightarrow> bool" where
  "lacks v k = (case subscript v k of Inl _ \<Rightarrow> True | Inr _ \<Rightarrow> False)"

text \<open>
  A response after which the loop asks for the next page: a data status and, for CSV, a
  body that decodes; for JSON, a document with an iterable \<^verbatim>\<open>data\<close> and a
  \<^verbatim>\<open>pagination.next\<close> that is not \<^verbatim>\<open>None\<close>.
\<close>

definition more_pages :: "bool \<Rightarrow> response \<Rightarrow> bool" where
  "more_pages as_csv r =
     (data_status r \<and>
      (if as_csv then content_decode r \<noteq> None
       else case json r of
         None \<Rightarrow> False
       | Some doc \<Rightarrow>
           (case subscript doc ''data'' of
              Inl _ \<Rightarrow> False
            | Inr page_data \<Rightarrow>
                iterable page_data \<and>
                (case subscript doc ''pagination'' of
                   Inl _ \<Rightarrow> False
                 | Inr pg \<Rightarrow>
                     (case subscript pg ''next'' of
                        Inl _ \<Rightarrow> False
                      | Inr nxt \<Rightarrow> nxt \<noteq> PNone)))))"

text \<open>The first \<open>n\<close> calls are all answered, each by a response that asks for more.\<close>

definition continues_upto :: "bool \<Rightarrow> network \<Rightarrow> nat \<Rightarrow> bool" where
  "continues_upto as_csv net n =
     list_all (\<lambda>j. case net j of None \<Rightarrow> False | Some r \<Rightarrow> more_pages as_csv r) [0..<n]"

text \<open>The accumulated \<^verbatim>\<open>data\<close> after the first \<open>n\<close> responses have been consumed.\<close>

fun data_after :: "bool \<Rightarrow> network \<Rightarrow> nat \<Rightarrow> pyval list" where
  "data_after as_csv net 0 = []"
| "data_after as_csv net (Suc n) =
     (case net n of
        None \<Rightarrow> data_after as_csv net n
      | Some r \<Rightarrow>
          (case loop_body as_csv (int n + 1) (data_after as_csv net n) r of
             Next_page d \<Rightarrow> d
           | Break d \<Rightarrow> d
           | Raise _ \<Rightarrow> data_after as_csv net n))"

text \<open>
  A JSON body that is malformed in the words of the specification: not a JSON document,
  or a document without \<^verbatim>\<open>data\<close>, without \<^verbatim>\<open>pagination\<close>, or without \<^verbatim>\<open>next\<close> under
  \<^verbatim>\<open>pagination\<close>.
\<close>

definition malformed :: "response \<Rightarrow> bool" where
  "malformed r =
     (case json r of
        None \<Rightarrow> True
      | Some doc \<Rightarrow>
          lacks doc ''data'' \<or>
          (case subscript doc ''pagination'' of
             Inl _ \<Rightarrow> True
           | Inr pg \<Rightarrow> lacks pg ''next''))"

text \<open>A string that \<^verbatim>\<open>strip()\<close> leaves alone and that is not empty.\<close>

definition trimmed :: "string \<Rightarrow> bool" where
  "trimmed s = (s \<noteq> [] \<and> \<not> is_space (hd s) \<and> \<not> is_space (last s))"

text \<open>The requests of a call that has sent \<open>n\<close> of them.\<close>

definition requests :: "string list \<Rightarrow> StructureType \<Rightarrow> bool \<Rightarrow> nat \<Rightarrow> request list" where
  "requests filters struct as_csv n =
     map (\<lambda>i. mk_request (join '';'' filters) (dumps struct)
                 (if \<not> as_csv then ''json'' else ''csv'') (1 + int i)) [0..<n]"

section \<open>Sample responses and networks\<close>

definition json_response :: "pyval list \<Rightarrow> pyval \<Rightarrow> response" where
  "json_response recs nxt =
     \<lparr>status_code = 200, resp_text = [], content_decode = None,
      json = Some (PDict [(''data'', PList recs), (''pagination'', PDict [(''next'', nxt)])])\<rparr>"

definition text_response :: "int \<Rightarrow> string \<Rightarrow> response" where
  "text_response code body =
     \<lparr>status_code = code, resp_text = body, content_decode = Some body, json = None\<rparr>"

text \<open>A network that answers with the given responses in turn and then fails to connect.\<close>

definition serve :: "response list \<Rightarrow> network" where
  "serve rs k = (if k < length rs then Some (rs ! k) else None)"

section \<open>The requests of one call\<close>

text \<open>
  Whatever the network answers and however much fuel there is, the requests sent so far are
  the fixed parameters with the page numbers counting up from where the loop started.
\<close>

lemma page_loop_sent:
  "\<exists>n. snd (page_loop fuel net ap c p d sent) = sent @ map (\<lambda>i. ap (p + int i)) [0..<n]"
proof (induction fuel arbitrary: p d sent)
  case 0
  have "snd (page_loop 0 net ap c p d sent) = sent @ map (\<lambda>i. ap (p + int i)) [0..<0]"
    by simp
  then show ?case by blast
next
  case (Suc fuel)
  have one: "sent @ [ap p] = sent @ map (\<lambda>i. ap (p + int i)) [0..<Suc 0]"
    by simp
  show ?case
  proof (cases "net (length sent)")
    case None
    then have "snd (page_loop (Suc fuel) net ap c p d sent) = sent @ [ap p]"
      by simp
    with one show ?thesis by metis
  next
    case (Some r)
    show ?thesis
    proof (cases "loop_body c p d r")
      case (Raise e)
      with Some have "snd (page_loop (Suc fuel) net ap c p d sent) = sent @ [ap p]"
        by simp
      with one show ?thesis by metis
    next
      case (Break d')
      with Some have "snd (page_loop (Suc fuel) net ap c p d sent) = sent @ [ap p]"
        by simp
      with one show ?thesis by metis
    next
      case (Next_page d')
      with Some have eq: "page_loop (Suc fuel) net ap c p d sent
          = page_loop fuel net ap c (p + 1) d' (sent @ [ap p])"
        by simp
      from Suc.IH [of "p + 1" d' "sent @ [ap p]"] obtain n where
        n: "snd (page_loop fuel net ap c (p + 1) d' (sent @ [ap p]))
             = (sent @ [ap p]) @ map (\<lambda>i. ap (p + 1 + int i)) [0..<n]"
        by blast
      have "(sent @ [ap p]) @ map (\<lambda>i. ap (p + 1 + int i)) [0..<n]
             = sent @ map (\<lambda>i. ap (p + int i)) [0..<Suc n]"
        by (simp add: upt_rec [of 0 "Suc n"] map_Suc_upt [symmetric] del: upt_Suc
              add: add.commute add.left_commute)
      with n eq show ?thesis by metis
    qed
  qed
qed

lemma snd_get_paginated_dataset:
  "snd (get_paginated_dataset fuel net fs st c) =
     snd (page_loop fuel net (mk_request (join '';'' fs) (dumps st) (if \<not> c then ''json'' else ''csv'')) c 1 [] [])"
  by (simp add: get_paginated_dataset_def Let_def split: prod.splits option.splits sum.splits)

lemma requests_sent:
  "snd (get_paginated_dataset fuel net fs st c) =
     map (\<lambda>i. mk_request (join '';'' fs) (dumps st) (if \<not> c then ''json'' else ''csv'') (1 + int i))
       [0..<length (snd (get_paginated_dataset fuel net fs st c))]"
proof -
  let ?ap = "mk_request (join '';'' fs) (dumps st) (if \<not> c then ''json'' else ''csv'')"
  obtain n where n: "snd (page_loop fuel net ?ap c 1 [] []) = [] @ map (\<lambda>i. ?ap (1 + int i)) [0..<n]"
    using page_loop_sent [of fuel net ?ap c 1 "[]" "[]"] by blast
  then have "length (snd (page_loop fuel net ?ap c 1 [] [])) = n" by simp
  with n show ?thesis by (simp add: snd_get_paginated_dataset)
qed

lemma mk_request_sel:
  "filters_param (mk_request a b f p) = a"
  "structure_param (mk_request a b f p) = b"
  "format_param (mk_request a b f p) = f"
  "page_param (mk_request a b f p) = p"
  by (simp_all add: mk_request_def)

section \<open>One pass through the loop\<close>

lemma page_loop_Suc_Break:
  "net (length sent) = Some r \<Longrightarrow> loop_body c p d r = Break d' \<Longrightarrow>
     page_loop (Suc fuel) net ap c p d sent = (Some (Inr d'), sent @ [ap p])"
  by simp

lemma page_loop_Suc_Raise:
  "net (length sent) = Some r \<Longrightarrow> loop_body c p d r = Raise e \<Longrightarrow>
     page_loop (Suc fuel) net ap c p d sent = (Some (Inl e), sent @ [ap p])"
  by simp

lemma page_loop_Suc_Next:
  "net (length sent) = Some r \<Longrightarrow> loop_body c p d r = Next_page d' \<Longrightarrow>
     page_loop (Suc fuel) net ap c p d sent = page_loop fuel net ap c (p + 1) d' (sent @ [ap p])"
  by simp

lemma loop_body_no_content:
  "status_code r = 204 \<Longrightarrow> loop_body c p d r = Break d"
  by (simp add: loop_body_def BAD_REQUEST_def NO_CONTENT_def)

lemma loop_body_bad_request:
  "status_code r \<ge> 400 \<Longrightarrow>
     loop_body c p d r = Raise (RuntimeError (''Request failed: '' @ resp_text r))"
  by (simp add: loop_body_def BAD_REQUEST_def NO_CONTENT_def)

text \<open>
  Claim C4. When the first response has status 204, the call ends after this one request
  and returns the empty list (JSON) or the empty string (CSV).
\<close>

theorem empty_dataset:
  assumes "net 0 = Some r" and "status_code r = 204" and "0 < fuel"
  shows "get_paginated_dataset fuel net fs st c =
           (Some (Inr (if c then PStr [] else PList [])),
            [mk_request (join '';'' fs) (dumps st) (if c then ''csv'' else ''json'') 1])"
proof -
  from assms(3) obtain f where f: "fuel = Suc f" by (cases fuel) auto
  let ?ap = "mk_request (join '';'' fs) (dumps st) (if \<not> c then ''json'' else ''csv'')"
  have "page_loop (Suc f) net ?ap c 1 [] [] = (Some (Inr []), [] @ [?ap 1])"
    using assms(1) loop_body_no_content [OF assms(2)]
    by (intro page_loop_Suc_Break) auto
  then show ?thesis
    by (simp add: get_paginated_dataset_def f finish_def join_values_def del: page_loop.simps)
qed

theorem empty_dataset_witness:
  "get_paginated_dataset 7
     (\<lambda>k. Some \<lparr>status_code = 204, resp_text = [], content_decode = Some [], json = None\<rparr>)
     [''areaType=region''] [(''date'', Field ''date'')] True
   = (Some (Inr (PStr [])),
      [mk_request ''areaType=region'' (dumps [(''date'', Field ''date'')]) ''csv'' 1])"
  using empty_dataset [of "\<lambda>k. Some \<lparr>status_code = 204, resp_text = [], content_decode = Some [], json = None\<rparr>"
      "\<lparr>status_code = 204, resp_text = [], content_decode = Some [], json = None\<rparr>" 7
      "[''areaType=region'']" "[(''date'', Field ''date'')]" True]
  by simp

section \<open>Splitting, joining and stripping\<close>

lemma split_not_Nil: "split sep s \<noteq> []"
  by (induction s) (auto split: list.splits)

lemma split_header:
  "sep \<notin> set h \<Longrightarrow> split sep (h @ sep # rest) = h # split sep rest"
  by (induction h) (auto split: list.splits)

lemma join_Cons:
  "join sep (x # xs) = (if xs = [] then x else x @ sep @ join sep xs)"
  by (cases xs) auto

lemma join_split: "join [sep] (split sep s) = s"
proof (induction s)
  case Nil
  show ?case by simp
next
  case (Cons c cs)
  obtain l ls where ls: "split sep cs = l # ls"
    using split_not_Nil [of sep cs] by (cases "split sep cs") auto
  show ?case
  proof (cases "c = sep")
    case True
    with Cons ls show ?thesis by (simp add: join_Cons)
  next
    case False
    with Cons ls show ?thesis by (simp add: join_Cons split: if_splits)
  qed
qed

lemma drop_header:
  "sep \<notin> set h \<Longrightarrow> join [sep] (drop 1 (split sep (h @ sep # rest))) = rest"
  by (simp add: split_header join_split)

lemma dropWhile_hd: "s \<noteq> [] \<Longrightarrow> \<not> P (hd s) \<Longrightarrow> dropWhile P s = s"
  by (cases s) auto

lemma strip_trail:
  assumes "trimmed s" and "\<forall>ch \<in> set t. is_space ch"
  shows "strip (s @ t) = s"
proof -
  from assms(1) have ne: "s \<noteq> []" and h: "\<not> is_space (hd s)" and l: "\<not> is_space (last s)"
    by (simp_all add: trimmed_def)
  have 1: "dropWhile is_space (s @ t) = s @ t"
    using ne h by (intro dropWhile_hd) auto
  have 2: "dropWhile is_space (rev t @ rev s) = rev s"
  proof -
    have "dropWhile is_space (rev t @ rev s) = dropWhile is_space (rev s)"
      using assms(2) by (intro dropWhile_append2) auto
    also have "\<dots> = rev s"
      using ne l by (intro dropWhile_hd) (auto simp: hd_rev)
    finally show ?thesis .
  qed
  show ?thesis by (simp add: strip_def 1 2)
qed

lemma trimmed_page:
  assumes "h \<noteq> []" and "\<not> is_space (hd h)" and "trimmed r"
  shows "trimmed (h @ NL # r)"
  using assms by (simp add: trimmed_def)

lemma the_strs_map: "the_strs (map PStr ss) = Some ss"
  by (induction ss) auto

lemma join_values_map: "join_values sep (map PStr ss) = Inr (join sep ss)"
  by (simp add: join_values_def the_strs_map)

section \<open>Running through pages that ask for more\<close>

lemma page_loop_advance:
  assumes "\<forall>j<n. net (length sent + j) = Some (resp j) \<and>
             loop_body c (p + int j) (dat j) (resp j) = Next_page (dat (Suc j))"
  shows "page_loop (n + fuel) net ap c p (dat 0) sent =
           page_loop fuel net ap c (p + int n) (dat n)
             (sent @ map (\<lambda>i. ap (p + int i)) [0..<n])"
  using assms
proof (induction n arbitrary: fuel)
  case 0
  show ?case by simp
next
  case (Suc n)
  let ?sent = "sent @ map (\<lambda>i. ap (p + int i)) [0..<n]"
  have "page_loop (Suc n + fuel) net ap c p (dat 0) sent =
          page_loop (n + Suc fuel) net ap c p (dat 0) sent"
    by simp
  also have "\<dots> = page_loop (Suc fuel) net ap c (p + int n) (dat n) ?sent"
    using Suc.prems by (intro Suc.IH) auto
  also have "\<dots> = page_loop fuel net ap c (p + int n + 1) (dat (Suc n)) (?sent @ [ap (p + int n)])"
    using Suc.prems by (intro page_loop_Suc_Next [where r = "resp n"]) auto
  also have "?sent @ [ap (p + int n)] = sent @ map (\<lambda>i. ap (p + int i)) [0..<Suc n]"
    by simp
  finally show ?case by (simp add: ac_simps del: page_loop.simps)
qed

lemma loop_body_json_page:
  assumes "json_page r = Some (recs, nxt)"
  shows "loop_body False p d r =
           (if nxt = PNone then Break (d @ recs) else Next_page (d @ recs))"
proof -
  from assms have st: "status_code r < 400" "status_code r \<noteq> 204"
    by (auto simp: json_page_def data_status_def split: if_splits)
  from assms st obtain doc pg where
    "json r = Some doc" "subscript doc ''data'' = Inr (PList recs)"
    "subscript doc ''pagination'' = Inr pg" "subscript pg ''next'' = Inr nxt"
    by (auto simp: json_page_def data_status_def split: option.splits sum.splits pyval.splits)
  with st show ?thesis
    by (simp add: loop_body_def BAD_REQUEST_def NO_CONTENT_def)
qed

lemma loop_body_csv:
  assumes "data_status r" and "content_decode r = Some s"
  shows "loop_body True p d r =
           Next_page (d @ [PStr (strip (if p > 1 then join [NL] (drop 1 (split NL s)) else s))])"
  using assms by (simp add: loop_body_def data_status_def BAD_REQUEST_def NO_CONTENT_def)

declare page_loop.simps [simp del]

lemma get_paginated_dataset_Break:
  assumes "page_loop fuel net
             (mk_request (join '';'' fs) (dumps st) (if \<not> c then ''json'' else ''csv''))
             c 1 [] [] = (Some (Inr d), sent)"
  shows "get_paginated_dataset fuel net fs st c = (Some (finish c d), sent)"
  using assms by (simp add: get_paginated_dataset_def)

lemma get_paginated_dataset_Raise:
  assumes "page_loop fuel net
             (mk_request (join '';'' fs) (dumps st) (if \<not> c then ''json'' else ''csv''))
             c 1 [] [] = (Some (Inl e), sent)"
  shows "get_paginated_dataset fuel net fs st c = (Some (Inl e), sent)"
  using assms by (simp add: get_paginated_dataset_def)

lemma requests_Suc:
  "requests fs st c (Suc n) =
     requests fs st c n @
       [mk_request (join '';'' fs) (dumps st) (if \<not> c then ''json'' else ''csv'') (1 + int n)]"
  by (simp add: requests_def)

text \<open>
  Claim C1. In JSON mode, when the first \<open>N\<close> responses (\<open>N \<ge> 1\<close>) are pages whose
  \<^verbatim>\<open>pagination.next\<close> is \<^verbatim>\<open>None\<close> on the \<open>N\<close>-th and on no earlier one, the call returns
  the pages' \<^verbatim>\<open>data\<close> sequences concatenated in page order, after exactly \<open>N\<close> requests,
  whatever fuel beyond \<open>N\<close> it is given.
\<close>

theorem json_pages_concatenated:
  assumes N: "0 < N"
    and pages: "\<forall>k<N. net k = Some (resp k) \<and> json_page (resp k) = Some (recs k, nxt k)"
    and last: "\<forall>k<N. (nxt k = PNone) = (Suc k = N)"
    and fuel: "N \<le> fuel"
  shows "get_paginated_dataset fuel net fs st False =
           (Some (Inr (PList (concat (map recs [0..<N])))), requests fs st False N)"
proof -
  from N obtain n where n: "N = Suc n" by (cases N) auto
  define f where "f = fuel - N"
  have f: "fuel = n + Suc f"
    using fuel n by (simp add: f_def)
  let ?ap = "mk_request (join '';'' fs) (dumps st) (if \<not> False then ''json'' else ''csv'')"
  let ?dat = "\<lambda>j. concat (map recs [0..<j])"
  have step: "\<forall>j<n. net (length ([]::request list) + j) = Some (resp j) \<and>
      loop_body False (1 + int j) (?dat j) (resp j) = Next_page (?dat (Suc j))"
  proof (intro allI impI)
    fix j assume j: "j < n"
    then have "j < N" using n by simp
    with pages have p: "net j = Some (resp j)" "json_page (resp j) = Some (recs j, nxt j)"
      by auto
    from j n last have "nxt j \<noteq> PNone" by auto
    with loop_body_json_page [OF p(2), of "1 + int j" "?dat j"] p(1)
    show "net (length ([]::request list) + j) = Some (resp j) \<and>
      loop_body False (1 + int j) (?dat j) (resp j) = Next_page (?dat (Suc j))"
      by simp
  qed
  have adv: "page_loop (n + Suc f) net ?ap False 1 (?dat 0) [] =
          page_loop (Suc f) net ?ap False (1 + int n) (?dat n)
            ([] @ map (\<lambda>i. ?ap (1 + int i)) [0..<n])"
    using step by (rule page_loop_advance)
  have reqs: "[] @ map (\<lambda>i. ?ap (1 + int i)) [0..<n] = requests fs st False n"
    by (simp add: requests_def)
  from pages n have p: "net n = Some (resp n)" "json_page (resp n) = Some (recs n, nxt n)"
    by auto
  from last n have "nxt n = PNone" by auto
  with loop_body_json_page [OF p(2), of "1 + int n" "?dat n"]
  have brk: "loop_body False (1 + int n) (?dat n) (resp n) = Break (?dat (Suc n))"
    by simp
  have "page_loop (Suc f) net ?ap False (1 + int n) (?dat n) (requests fs st False n) =
          (Some (Inr (?dat (Suc n))), requests fs st False n @ [?ap (1 + int n)])"
    using p(1) brk by (intro page_loop_Suc_Break) (auto simp: requests_def)
  then have fin: "page_loop (Suc f) net ?ap False (1 + int n) (?dat n) (requests fs st False n) =
          (Some (Inr (?dat N)), requests fs st False N)"
    by (simp only: n requests_Suc if_True if_False not_False_eq_True)
  have start: "page_loop fuel net ?ap False 1 [] [] =
          page_loop (Suc f) net ?ap False (1 + int n) (?dat n) (requests fs st False n)"
    using adv unfolding reqs f by simp
  from start fin have "page_loop fuel net ?ap False 1 [] [] =
          (Some (Inr (?dat N)), requests fs st False N)"
    by (rule trans)
  then show ?thesis
    by (simp add: get_paginated_dataset_def finish_def)
qed

lemma serve_Cons_0: "serve (r # rs) 0 = Some r"
  by (simp add: serve_def)

lemma serve_Cons_Suc: "serve (r # rs) (Suc k) = serve rs k"
  by (simp add: serve_def)

lemma json_page_json_response: "json_page (json_response recs nxt) = Some (recs, nxt)"
  by (simp add: json_page_def json_response_def data_status_def)

lemma all_less_2: "(\<forall>k<2. P k) = (P 0 \<and> P (Suc 0))"
  by (auto simp: less_Suc_eq numeral_2_eq_2)

theorem json_pages_concatenated_witness:
  "get_paginated_dataset 5
     (serve [json_response [PInt 1] (PStr ''page=2''), json_response [PInt 2, PInt 3] PNone])
     [''areaType=nation''] [(''date'', Field ''date'')] False =
     (Some (Inr (PList [PInt 1, PInt 2, PInt 3])),
      [mk_request ''areaType=nation'' (dumps [(''date'', Field ''date'')]) ''json'' 1,
       mk_request ''areaType=nation'' (dumps [(''date'', Field ''date'')]) ''json'' 2])"
proof -
  let ?net = "serve [json_response [PInt 1] (PStr ''page=2''), json_response [PInt 2, PInt 3] PNone]"
  let ?resp = "\<lambda>k::nat. if k = 0 then json_response [PInt 1] (PStr ''page=2'')
                 else json_response [PInt 2, PInt 3] PNone"
  let ?recs = "\<lambda>k::nat. if k = 0 then [PInt 1] else [PInt 2, PInt 3]"
  let ?nxt = "\<lambda>k::nat. if k = 0 then PStr ''page=2'' else PNone"
  have 1: "(0::nat) < 2" by simp
  have 2: "\<forall>k<2. ?net k = Some (?resp k) \<and> json_page (?resp k) = Some (?recs k, ?nxt k)"
    by (simp add: all_less_2 serve_Cons_0 serve_Cons_Suc json_page_json_response)
  have 3: "\<forall>k<2. (?nxt k = PNone) = (Suc k = 2)"
    by (simp add: all_less_2)
  have 4: "(2::nat) \<le> 5" by simp
  have u: "[0..<2] = [0, Suc 0]" by (simp add: numeral_2_eq_2)
  show ?thesis
    using json_pages_concatenated [OF 1 2 3 4, of "[''areaType=nation'']" "[(''date'', Field ''date'')]"]
    by (simp add: requests_def u)
qed

lemma join_header:
  "join [NL] ((h @ NL # r) # xs) = h @ NL # join [NL] (r # xs)"
  by (simp add: join_Cons)

lemma map_upt_from_0:
  "map f [0..<Suc n] = f 0 # map f [Suc 0..<Suc n]"
  by (simp add: upt_rec [of 0 "Suc n"] del: upt_Suc)

text \<open>
  Claim C2. In CSV mode, when the first \<open>N\<close> responses (\<open>N \<ge> 1\<close>) are pages, each a header
  line, a newline, its rows and trailing white space, and the next response has status 204,
  the call returns the first page's header line followed by the rows of all pages, joined by
  newlines: the header line of every page after the first is dropped and every page is
  trimmed. It makes exactly \<open>N + 1\<close> requests. With \<open>N = 2\<close> and the header \<^verbatim>\<open>a,b\<close> this is
  the case the specification spells out.
\<close>

theorem csv_pages_joined:
  assumes N: "0 < N"
    and pages: "\<forall>k<N. net k = Some (resp k) \<and> data_status (resp k) \<and>
                  content_decode (resp k) = Some (hdr k @ NL # rows k @ trail k)"
    and stop: "net N = Some r" "status_code r = 204"
    and hdr0: "hdr 0 \<noteq> []" "\<not> is_space (hd (hdr 0))"
    and hdrs: "\<forall>k<N. NL \<notin> set (hdr k)"
    and rows: "\<forall>k<N. trimmed (rows k) \<and> (\<forall>ch \<in> set (trail k). is_space ch)"
    and fuel: "N < fuel"
  shows "get_paginated_dataset fuel net fs st True =
           (Some (Inr (PStr (hdr 0 @ NL # join [NL] (map rows [0..<N])))),
            requests fs st True (Suc N))"
proof -
  define f where "f = fuel - Suc N"
  have f: "fuel = N + Suc f"
    using fuel by (simp add: f_def)
  let ?ap = "mk_request (join '';'' fs) (dumps st) (if \<not> True then ''json'' else ''csv'')"
  define blob where "blob = (\<lambda>k. if k = 0 then hdr 0 @ NL # rows 0 else rows k)"
  define dat where "dat = (\<lambda>j. map PStr (map blob [0..<j]))"
  have step: "\<forall>j<N. net (length ([]::request list) + j) = Some (resp j) \<and>
      loop_body True (1 + int j) (dat j) (resp j) = Next_page (dat (Suc j))"
  proof (intro allI impI)
    fix j assume j: "j < N"
    with pages have p: "net j = Some (resp j)" "data_status (resp j)"
      "content_decode (resp j) = Some (hdr j @ NL # rows j @ trail j)"
      by auto
    from j rows have t: "trimmed (rows j)" "\<forall>ch \<in> set (trail j). is_space ch"
      by auto
    have "strip (if 1 + int j > 1
                 then join [NL] (drop 1 (split NL (hdr j @ NL # rows j @ trail j)))
                 else hdr j @ NL # rows j @ trail j) = blob j"
    proof (cases "j = 0")
      case True
      have "strip ((hdr 0 @ NL # rows 0) @ trail 0) = hdr 0 @ NL # rows 0"
        using t hdr0 True by (intro strip_trail trimmed_page) auto
      with True show ?thesis by (simp add: blob_def)
    next
      case False
      from j hdrs have "NL \<notin> set (hdr j)" by auto
      then have "join [NL] (drop 1 (split NL (hdr j @ NL # rows j @ trail j))) = rows j @ trail j"
        by (rule drop_header)
      moreover have "strip (rows j @ trail j) = rows j"
        using t by (rule strip_trail)
      ultimately show ?thesis using False by (simp add: blob_def)
    qed
    with loop_body_csv [OF p(2) p(3), of "1 + int j" "dat j"]
    have "loop_body True (1 + int j) (dat j) (resp j) = Next_page (dat (Suc j))"
      by (simp add: dat_def)
    with p(1) show "net (length ([]::request list) + j) = Some (resp j) \<and>
      loop_body True (1 + int j) (dat j) (resp j) = Next_page (dat (Suc j))"
      by simp
  qed
  have adv: "page_loop (N + Suc f) net ?ap True 1 (dat 0) [] =
          page_loop (Suc f) net ?ap True (1 + int N) (dat N)
            ([] @ map (\<lambda>i. ?ap (1 + int i)) [0..<N])"
    using step by (rule page_loop_advance)
  have reqs: "[] @ map (\<lambda>i. ?ap (1 + int i)) [0..<N] = requests fs st True N"
    by (simp add: requests_def)
  have d0: "dat 0 = []" by (simp add: dat_def)
  have brk: "loop_body True (1 + int N) (dat N) r = Break (dat N)"
    using stop(2) by (rule loop_body_no_content)
  have "page_loop (Suc f) net ?ap True (1 + int N) (dat N) (requests fs st True N) =
          (Some (Inr (dat N)), requests fs st True N @ [?ap (1 + int N)])"
    using stop(1) brk by (intro page_loop_Suc_Break) (auto simp: requests_def)
  then have fin: "page_loop (Suc f) net ?ap True (1 + int N) (dat N) (requests fs st True N) =
          (Some (Inr (dat N)), requests fs st True (Suc N))"
    by (simp only: requests_Suc)
  have start: "page_loop fuel net ?ap True 1 [] [] =
          page_loop (Suc f) net ?ap True (1 + int N) (dat N) (requests fs st True N)"
    using adv unfolding reqs f d0 by simp
  from start fin have run: "page_loop fuel net ?ap True 1 [] [] =
          (Some (Inr (dat N)), requests fs st True (Suc N))"
    by (rule trans)
  from N obtain n where n: "N = Suc n" by (cases N) auto
  have "map blob [0..<N] = (hdr 0 @ NL # rows 0) # map rows [Suc 0..<N]"
    unfolding n map_upt_from_0 [of blob n] by (simp add: blob_def)
  then have "join [NL] (map blob [0..<N]) = hdr 0 @ NL # join [NL] (rows 0 # map rows [Suc 0..<N])"
    by (simp only: join_header)
  also have "rows 0 # map rows [Suc 0..<N] = map rows [0..<N]"
    unfolding n by (rule map_upt_from_0 [symmetric])
  finally have j: "join [NL] (map blob [0..<N]) = hdr 0 @ NL # join [NL] (map rows [0..<N])" .
  have "join_values [NL] (dat N) = Inr (join [NL] (map blob [0..<N]))"
    unfolding dat_def by (rule join_values_map)
  then have "finish True (dat N) = Inr (PStr (hdr 0 @ NL # join [NL] (map rows [0..<N])))"
    by (simp add: finish_def j)
  with get_paginated_dataset_Break [OF run] show ?thesis
    by simp
qed

theorem csv_pages_joined_witness:
  "get_paginated_dataset 9
     (serve [text_response 200 (''a,b'' @ NL # ''1,2'' @ [NL]),
             text_response 200 (''a,b'' @ NL # ''3,4'' @ [NL]),
             text_response 204 []])
     [''areaType=nation''] [(''date'', Field ''date'')] True =
     (Some (Inr (PStr (''a,b'' @ NL # ''1,2'' @ NL # ''3,4''))),
      [mk_request ''areaType=nation'' (dumps [(''date'', Field ''date'')]) ''csv'' 1,
       mk_request ''areaType=nation'' (dumps [(''date'', Field ''date'')]) ''csv'' 2,
       mk_request ''areaType=nation'' (dumps [(''date'', Field ''date'')]) ''csv'' 3])"
proof -
  let ?net = "serve [text_response 200 (''a,b'' @ NL # ''1,2'' @ [NL]),
             text_response 200 (''a,b'' @ NL # ''3,4'' @ [NL]),
             text_response 204 []]"
  let ?rows = "\<lambda>k::nat. if k = 0 then ''1,2'' else ''3,4''"
  let ?resp = "\<lambda>k::nat. text_response 200 (''a,b'' @ NL # ?rows k @ [NL])"
  have 1: "(0::nat) < 2" by simp
  have 2: "\<forall>k<2. ?net k = Some (?resp k) \<and> data_status (?resp k) \<and>
             content_decode (?resp k) = Some ((\<lambda>k. ''a,b'') k @ NL # ?rows k @ (\<lambda>k. [NL]) k)"
    by (simp add: all_less_2 serve_Cons_0 serve_Cons_Suc text_response_def data_status_def)
  have 3: "?net 2 = Some (text_response 204 [])"
    by (simp add: numeral_2_eq_2 serve_Cons_0 serve_Cons_Suc)
  have 4: "status_code (text_response 204 []) = 204"
    by (simp add: text_response_def)
  have 5: "(\<lambda>k::nat. ''a,b'') 0 \<noteq> []" by simp
  have 6: "\<not> is_space (hd ((\<lambda>k::nat. ''a,b'') 0))" by (simp add: is_space_def)
  have 7: "\<forall>k<2. NL \<notin> set ((\<lambda>k::nat. ''a,b'') k)" by (simp add: NL_def)
  have 8: "\<forall>k<2. trimmed (?rows k) \<and> (\<forall>ch \<in> set ((\<lambda>k::nat. [NL]) k). is_space ch)"
    by (simp add: all_less_2 trimmed_def is_space_def NL_def)
  have 9: "(2::nat) < 9" by simp
  have u: "[0..<2] = [0, Suc 0]" "[0..<3] = [0, Suc 0, Suc (Suc 0)]"
    by (simp_all add: numeral_2_eq_2 numeral_3_eq_3)
  have s: "Suc 2 = 3" by simp
  show ?thesis
    using csv_pages_joined [OF 1 2 3 4 5 6 7 8 9, of "[''areaType=nation'']" "[(''date'', Field ''date'')]"]
    by (simp add: requests_def u s)
qed

section \<open>Runs that reach a given response\<close>

lemma subscript_Inl:
  "subscript v k = Inl e \<Longrightarrow> e = KeyError k \<or> e = TypeError"
  by (cases v) (auto split: option.splits)

lemma list_extend_Inl:
  "list_extend d v = Inl e \<Longrightarrow> e = TypeError"
  by (cases v) auto

lemma iterable_list_extend:
  "iterable v = (\<exists>d'. list_extend d v = Inr d')"
  by (cases v) (auto simp: iterable_def)

lemma more_pages_iff:
  "more_pages c r = (\<exists>d'. loop_body c p d r = Next_page d')"
proof (cases c)
  case True
  then show ?thesis
    by (auto simp: more_pages_def loop_body_def data_status_def BAD_REQUEST_def NO_CONTENT_def
          Let_def split: option.splits)
next
  case False
  show ?thesis
  proof (cases "data_status r")
    case ds: False
    then show ?thesis
      using False
      by (auto simp: more_pages_def loop_body_def data_status_def BAD_REQUEST_def NO_CONTENT_def)
  next
    case ds: True
    then have st: "\<not> status_code r \<ge> BAD_REQUEST" "status_code r \<noteq> NO_CONTENT"
      by (auto simp: data_status_def BAD_REQUEST_def NO_CONTENT_def)
    show ?thesis
    proof (cases "json r")
      case None
      with False ds st show ?thesis
        by (simp add: more_pages_def loop_body_def)
    next
      case (Some doc)
      show ?thesis
      proof (cases "subscript doc ''data''")
        case (Inl e)
        with False ds st Some show ?thesis
          by (simp add: more_pages_def loop_body_def)
      next
        case (Inr pd)
        show ?thesis
        proof (cases "list_extend d pd")
          case el: (Inl e)
          then have "\<not> iterable pd"
            by (simp add: iterable_list_extend [of pd d])
          with False ds st Some Inr el show ?thesis
            by (simp add: more_pages_def loop_body_def)
        next
          case er: (Inr d1)
          then have "iterable pd"
            by (auto simp: iterable_list_extend [of pd d])
          with False ds st Some Inr er show ?thesis
            by (auto simp: more_pages_def loop_body_def split: sum.splits)
        qed
      qed
    qed
  qed
qed

lemma continues_upto_iff:
  "continues_upto c net n = (\<forall>j<n. \<exists>r. net j = Some r \<and> more_pages c r)"
proof -
  have "(case x of None \<Rightarrow> False | Some r \<Rightarrow> more_pages c r) =
          (\<exists>r. x = Some r \<and> more_pages c r)" for x
    by (cases x) auto
  then show ?thesis
    by (simp add: continues_upto_def list_all_iff Ball_def)
qed

lemma continues_uptoD:
  assumes "continues_upto c net n" and "j < n"
  obtains r where "net j = Some r" and "more_pages c r"
  using assms unfolding continues_upto_iff by blast

lemma data_after_Next:
  assumes "net j = Some r" and "loop_body c (1 + int j) (data_after c net j) r = Next_page d'"
  shows "data_after c net (Suc j) = d'"
  using assms by (simp add: add.commute)

lemma run_prefix:
  assumes "continues_upto c net n"
  shows "page_loop (n + fuel) net ap c 1 [] [] =
           page_loop fuel net ap c (1 + int n) (data_after c net n)
             (map (\<lambda>i. ap (1 + int i)) [0..<n])"
proof -
  have "\<forall>j<n. net (length ([]::request list) + j) = Some (the (net j)) \<and>
      loop_body c (1 + int j) (data_after c net j) (the (net j)) =
        Next_page (data_after c net (Suc j))"
  proof (intro allI impI)
    fix j assume "j < n"
    with assms obtain r where r: "net j = Some r" "more_pages c r"
      by (rule continues_uptoD)
    from r(2) obtain d' where d': "loop_body c (1 + int j) (data_after c net j) r = Next_page d'"
      using more_pages_iff [of c r "1 + int j" "data_after c net j"] by blast
    with r(1) have "data_after c net (Suc j) = d'"
      by (rule data_after_Next)
    with r(1) d' show "net (length ([]::request list) + j) = Some (the (net j)) \<and>
      loop_body c (1 + int j) (data_after c net j) (the (net j)) =
        Next_page (data_after c net (Suc j))"
      by simp
  qed
  then have "page_loop (n + fuel) net ap c 1 (data_after c net 0) [] =
           page_loop fuel net ap c (1 + int n) (data_after c net n)
             ([] @ map (\<lambda>i. ap (1 + int i)) [0..<n])"
    by (rule page_loop_advance)
  then show ?thesis by simp
qed

lemma fuel_split: "k < fuel \<Longrightarrow> fuel = k + Suc (fuel - Suc k)"
  by simp

lemma run_Raise:
  assumes "continues_upto c net k" and "net k = Some r"
    and "loop_body c (1 + int k) (data_after c net k) r = Raise e" and "k < fuel"
  shows "get_paginated_dataset fuel net fs st c = (Some (Inl e), requests fs st c (Suc k))"
proof -
  let ?ap = "mk_request (join '';'' fs) (dumps st) (if \<not> c then ''json'' else ''csv'')"
  have "page_loop (k + Suc (fuel - Suc k)) net ?ap c 1 [] [] =
          page_loop (Suc (fuel - Suc k)) net ?ap c (1 + int k) (data_after c net k)
            (requests fs st c k)"
    unfolding requests_def using assms(1) by (rule run_prefix)
  also have "\<dots> = (Some (Inl e), requests fs st c k @ [?ap (1 + int k)])"
    using assms(2,3) by (intro page_loop_Suc_Raise) (auto simp: requests_def)
  finally have "page_loop fuel net ?ap c 1 [] [] = (Some (Inl e), requests fs st c (Suc k))"
    using fuel_split [OF assms(4)] by (simp only: requests_Suc)
  then show ?thesis by (rule get_paginated_dataset_Raise)
qed

lemma run_Break:
  assumes "continues_upto c net k" and "net k = Some r"
    and "loop_body c (1 + int k) (data_after c net k) r = Break d" and "k < fuel"
  shows "get_paginated_dataset fuel net fs st c = (Some (finish c d), requests fs st c (Suc k))"
proof -
  let ?ap = "mk_request (join '';'' fs) (dumps st) (if \<not> c then ''json'' else ''csv'')"
  have "page_loop (k + Suc (fuel - Suc k)) net ?ap c 1 [] [] =
          page_loop (Suc (fuel - Suc k)) net ?ap c (1 + int k) (data_after c net k)
            (requests fs st c k)"
    unfolding requests_def using assms(1) by (rule run_prefix)
  also have "\<dots> = (Some (Inr d), requests fs st c k @ [?ap (1 + int k)])"
    using assms(2,3) by (intro page_loop_Suc_Break) (auto simp: requests_def)
  finally have "page_loop fuel net ?ap c 1 [] [] = (Some (Inr d), requests fs st c (Suc k))"
    using fuel_split [OF assms(4)] by (simp only: requests_Suc)
  then show ?thesis by (rule get_paginated_dataset_Break)
qed

lemma page_loop_Suc_None:
  "net (length sent) = None \<Longrightarrow>
     page_loop (Suc fuel) net ap c p d sent = (Some (Inl RequestException), sent @ [ap p])"
  by (simp add: page_loop.simps)

lemma run_None:
  assumes "continues_upto c net k" and "net k = None" and "k < fuel"
  shows "get_paginated_dataset fuel net fs st c =
           (Some (Inl RequestException), requests fs st c (Suc k))"
proof -
  let ?ap = "mk_request (join '';'' fs) (dumps st) (if \<not> c then ''json'' else ''csv'')"
  have "page_loop (k + Suc (fuel - Suc k)) net ?ap c 1 [] [] =
          page_loop (Suc (fuel - Suc k)) net ?ap c (1 + int k) (data_after c net k)
            (requests fs st c k)"
    unfolding requests_def using assms(1) by (rule run_prefix)
  also have "\<dots> = (Some (Inl RequestException), requests fs st c k @ [?ap (1 + int k)])"
    using assms(2) by (intro page_loop_Suc_None) (auto simp: requests_def)
  finally have "page_loop fuel net ?ap c 1 [] [] =
      (Some (Inl RequestException), requests fs st c (Suc k))"
    using fuel_split [OF assms(3)] by (simp only: requests_Suc)
  then show ?thesis by (rule get_paginated_dataset_Raise)
qed

lemma run_out_of_fuel:
  assumes "continues_upto c net fuel"
  shows "get_paginated_dataset fuel net fs st c = (None, requests fs st c fuel)"
proof -
  let ?ap = "mk_request (join '';'' fs) (dumps st) (if \<not> c then ''json'' else ''csv'')"
  have "page_loop (fuel + 0) net ?ap c 1 [] [] =
          page_loop 0 net ?ap c (1 + int fuel) (data_after c net fuel) (requests fs st c fuel)"
    unfolding requests_def using assms by (rule run_prefix)
  then have "page_loop fuel net ?ap c 1 [] [] = (None, requests fs st c fuel)"
    by (simp add: page_loop.simps)
  then show ?thesis by (simp add: get_paginated_dataset_def)
qed

text \<open>
  Claim C3. When a call receives a response with status 400 or above (every earlier
  response having asked for more), it ends there with the \<^verbatim>\<open>RuntimeError\<close> whose message
  carries the text of that response: no request follows, however much fuel is left, and
  nothing of the earlier pages is returned. This holds in both formats.
\<close>

theorem error_status_aborts:
  assumes "continues_upto c net k" and "net k = Some r" and "status_code r \<ge> 400"
    and "k < fuel"
  shows "get_paginated_dataset fuel net fs st c =
           (Some (Inl (RuntimeError (''Request failed: '' @ resp_text r))),
            requests fs st c (Suc k))"
  using assms(1,2) loop_body_bad_request [OF assms(3)] assms(4) by (rule run_Raise)

lemma more_pages_json_response:
  "more_pages False (json_response recs nxt) = (nxt \<noteq> PNone)"
  by (simp add: more_pages_def json_response_def data_status_def iterable_def)

lemma more_pages_text_response:
  "more_pages True (text_response code body) = (code < 400 \<and> code \<noteq> 204)"
  by (simp add: more_pages_def text_response_def data_status_def)

lemma continues_upto_0: "continues_upto c net 0"
  by (simp add: continues_upto_def)

lemma continues_upto_Suc:
  "continues_upto c net (Suc n) =
     (continues_upto c net n \<and> (case net n of None \<Rightarrow> False | Some r \<Rightarrow> more_pages c r))"
  by (simp add: continues_upto_def)

theorem error_status_aborts_witness:
  "get_paginated_dataset 6
     (serve [json_response [PInt 1] (PStr ''page=2''), text_response 404 ''not found'',
             json_response [PInt 2] PNone])
     [''areaType=nation''] [(''date'', Field ''date'')] False =
     (Some (Inl (RuntimeError ''Request failed: not found'')),
      [mk_request ''areaType=nation'' (dumps [(''date'', Field ''date'')]) ''json'' 1,
       mk_request ''areaType=nation'' (dumps [(''date'', Field ''date'')]) ''json'' 2])"
proof -
  let ?net = "serve [json_response [PInt 1] (PStr ''page=2''), text_response 404 ''not found'',
             json_response [PInt 2] PNone]"
  have 1: "continues_upto False ?net (Suc 0)"
    by (simp add: continues_upto_Suc continues_upto_0 serve_Cons_0 more_pages_json_response)
  have 2: "?net (Suc 0) = Some (text_response 404 ''not found'')"
    by (simp add: serve_Cons_0 serve_Cons_Suc)
  have 3: "status_code (text_response 404 ''not found'') \<ge> 400"
    by (simp add: text_response_def)
  have 4: "Suc 0 < 6" by simp
  have u: "[0..<Suc (Suc 0)] = [0, Suc 0]" by simp
  show ?thesis
    using error_status_aborts [OF 1 2 3 4, of "[''areaType=nation'']" "[(''date'', Field ''date'')]"]
    by (simp add: requests_def u text_response_def)
qed

section \<open>Failures of a JSON page\<close>

lemma loop_body_malformed:
  assumes "data_status r" and "malformed r"
  shows "\<exists>e. loop_body False p d r = Raise e \<and>
           (e = JSONDecodeError \<or> e = KeyError ''data'' \<or> e = KeyError ''pagination'' \<or>
            e = KeyError ''next'' \<or> e = TypeError) \<and>
           (json r = None \<longrightarrow> e = JSONDecodeError) \<and>
           (\<forall>kvs. json r = Some (PDict kvs) \<and> map_of kvs ''data'' = None \<longrightarrow>
                    e = KeyError ''data'')"
proof -
  from assms(1) have st: "\<not> status_code r \<ge> BAD_REQUEST" "status_code r \<noteq> NO_CONTENT"
    by (auto simp: data_status_def BAD_REQUEST_def NO_CONTENT_def)
  show ?thesis
  proof (cases "json r")
    case None
    with st show ?thesis by (simp add: loop_body_def)
  next
    case (Some doc)
    show ?thesis
    proof (cases "subscript doc ''data''")
      case (Inl e)
      then have e: "e = KeyError ''data'' \<or> e = TypeError" by (rule subscript_Inl)
      have "\<forall>kvs. doc = PDict kvs \<and> map_of kvs ''data'' = None \<longrightarrow> e = KeyError ''data''"
        using Inl by auto
      with st Some Inl e show ?thesis by (auto simp: loop_body_def)
    next
      case (Inr pd)
      then have nk: "\<forall>kvs. doc = PDict kvs \<longrightarrow> map_of kvs ''data'' \<noteq> None"
        by (auto split: option.splits)
      show ?thesis
      proof (cases "list_extend d pd")
        case el: (Inl e)
        then have "e = TypeError" by (rule list_extend_Inl)
        with st Some Inr el nk show ?thesis by (auto simp: loop_body_def)
      next
        case er: (Inr d1)
        show ?thesis
        proof (cases "subscript doc ''pagination''")
          case pl: (Inl e)
          have "e = KeyError ''pagination'' \<or> e = TypeError"
            using pl by (rule subscript_Inl)
          with st Some Inr er pl nk show ?thesis by (auto simp: loop_body_def)
        next
          case pr: (Inr pg)
          from assms(2) Some Inr pr have "lacks pg ''next''"
            by (simp add: malformed_def lacks_def)
          then obtain e where nl: "subscript pg ''next'' = Inl e"
            by (auto simp: lacks_def split: sum.splits)
          then have "e = KeyError ''next'' \<or> e = TypeError"
            by (rule subscript_Inl)
          with st Some Inr er pr nl nk show ?thesis by (auto simp: loop_body_def)
        qed
      qed
    qed
  qed
qed

text \<open>
  Claim C8. In JSON mode, when a call receives a page (a status below 400 other than 204)
  whose body is not a JSON document, or is one without \<^verbatim>\<open>data\<close>, without
  \<^verbatim>\<open>pagination\<close> or without \<^verbatim>\<open>next\<close> under it, the call ends there with the failure of
  the parse or of the lookup: a \<^verbatim>\<open>JSONDecodeError\<close>, a \<^verbatim>\<open>KeyError\<close> of the missing key or
  a \<^verbatim>\<open>TypeError\<close>, never the \<^verbatim>\<open>RuntimeError\<close> of an error status, and no result.
\<close>

theorem malformed_page_propagates:
  assumes "continues_upto False net k" and "net k = Some r" and "data_status r"
    and "malformed r" and "k < fuel"
  shows "\<exists>e. get_paginated_dataset fuel net fs st False =
                (Some (Inl e), requests fs st False (Suc k)) \<and>
           (e = JSONDecodeError \<or> e = KeyError ''data'' \<or> e = KeyError ''pagination'' \<or>
            e = KeyError ''next'' \<or> e = TypeError) \<and>
           (\<nexists>m. e = RuntimeError m) \<and>
           (json r = None \<longrightarrow> e = JSONDecodeError) \<and>
           (\<forall>kvs. json r = Some (PDict kvs) \<and> map_of kvs ''data'' = None \<longrightarrow>
                    e = KeyError ''data'')"
proof -
  from loop_body_malformed [OF assms(3,4), of "1 + int k" "data_after False net k"]
  obtain e where e0: "loop_body False (1 + int k) (data_after False net k) r = Raise e \<and>
      ((e = JSONDecodeError \<or> e = KeyError ''data'' \<or> e = KeyError ''pagination'' \<or>
         e = KeyError ''next'' \<or> e = TypeError) \<and>
       ((json r = None \<longrightarrow> e = JSONDecodeError) \<and>
        (\<forall>kvs. json r = Some (PDict kvs) \<and> map_of kvs ''data'' = None \<longrightarrow>
                 e = KeyError ''data'')))"
    by (rule exE)
  note e = e0 [THEN conjunct1] e0 [THEN conjunct2, THEN conjunct1]
    e0 [THEN conjunct2, THEN conjunct2, THEN conjunct1]
    e0 [THEN conjunct2, THEN conjunct2, THEN conjunct2]
  from e(2) have "\<nexists>m. e = RuntimeError m" by auto
  moreover have "get_paginated_dataset fuel net fs st False =
                (Some (Inl e), requests fs st False (Suc k))"
    using assms(1,2) e(1) assms(5) by (rule run_Raise)
  ultimately show ?thesis using e(2,3,4)
    by (intro exI [where x = e] conjI) assumption+
qed

theorem malformed_page_propagates_witness:
  "get_paginated_dataset 6
     (serve [json_response [PInt 1] (PStr ''page=2''), text_response 200 ''<html>''])
     [''areaType=nation''] [(''date'', Field ''date'')] False =
     (Some (Inl JSONDecodeError),
      [mk_request ''areaType=nation'' (dumps [(''date'', Field ''date'')]) ''json'' 1,
       mk_request ''areaType=nation'' (dumps [(''date'', Field ''date'')]) ''json'' 2])"
proof -
  let ?net = "serve [json_response [PInt 1] (PStr ''page=2''), text_response 200 ''<html>'']"
  let ?r = "text_response 200 ''<html>''"
  have 1: "continues_upto False ?net (Suc 0)"
    by (simp add: continues_upto_Suc continues_upto_0 serve_Cons_0 more_pages_json_response)
  have 2: "?net (Suc 0) = Some ?r"
    by (simp add: serve_Cons_0 serve_Cons_Suc)
  have 3: "data_status ?r"
    by (simp add: text_response_def data_status_def)
  have 4: "malformed ?r"
    by (simp add: text_response_def malformed_def)
  have 5: "Suc 0 < 6" by simp
  have n: "json ?r = None" by (simp add: text_response_def)
  have u: "[0..<Suc (Suc 0)] = [0, Suc 0]" by simp
  from malformed_page_propagates [OF 1 2 3 4 5, of "[''areaType=nation'']" "[(''date'', Field ''date'')]"]
  obtain e where e: "get_paginated_dataset 6 ?net [''areaType=nation''] [(''date'', Field ''date'')] False =
                (Some (Inl e), requests [''areaType=nation''] [(''date'', Field ''date'')] False (Suc (Suc 0)))"
     and j: "json ?r = None \<longrightarrow> e = JSONDecodeError"
    by (elim exE conjE)
  from j n have "e = JSONDecodeError" by (rule mp)
  with e show ?thesis by (simp add: requests_def u)
qed

section \<open>When the error of an error status is raised\<close>

lemma loop_body_Raise_kinds:
  assumes "\<not> status_code r \<ge> 400" and "loop_body c p d r = Raise e"
  shows "e = UnicodeDecodeError \<or> e = JSONDecodeError \<or> (\<exists>k. e = KeyError k) \<or> e = TypeError"
proof -
  from assms(1) have st: "\<not> status_code r \<ge> BAD_REQUEST" by (simp add: BAD_REQUEST_def)
  show ?thesis
  proof (cases "status_code r = NO_CONTENT")
    case True
    with st assms(2) show ?thesis by (simp add: loop_body_def)
  next
    case nc: False
    show ?thesis
    proof (cases c)
      case True
      with st nc assms(2) show ?thesis
        by (auto simp: loop_body_def Let_def split: option.splits)
    next
      case False
      show ?thesis
      proof (cases "json r")
        case None
        with st nc False assms(2) show ?thesis by (simp add: loop_body_def)
      next
        case (Some doc)
        show ?thesis
        proof (cases "subscript doc ''data''")
          case (Inl e1)
          with st nc False Some assms(2) have "e = e1" by (simp add: loop_body_def)
          with subscript_Inl [OF Inl] show ?thesis by auto
        next
          case (Inr pd)
          show ?thesis
          proof (cases "list_extend d pd")
            case el: (Inl e1)
            with st nc False Some Inr assms(2) have "e = e1" by (simp add: loop_body_def)
            with list_extend_Inl [OF el] show ?thesis by auto
          next
            case er: (Inr d1)
            show ?thesis
            proof (cases "subscript doc ''pagination''")
              case pl: (Inl e1)
              with st nc False Some Inr er assms(2) have "e = e1" by (simp add: loop_body_def)
              with subscript_Inl [OF pl] show ?thesis by auto
            next
              case pr: (Inr pg)
              show ?thesis
              proof (cases "subscript pg ''next''")
                case nl: (Inl e1)
                with st nc False Some Inr er pr assms(2) have "e = e1"
                  by (simp add: loop_body_def)
                with subscript_Inl [OF nl] show ?thesis by auto
              next
                case nr: (Inr nxt)
                with st nc False Some Inr er pr assms(2) show ?thesis
                  by (simp add: loop_body_def split: if_splits)
              qed
            qed
          qed
        qed
      qed
    qed
  qed
qed

lemma loop_body_RuntimeError:
  assumes "loop_body c p d r = Raise (RuntimeError m)"
  shows "status_code r \<ge> 400"
proof (rule ccontr)
  assume "\<not> status_code r \<ge> 400"
  from loop_body_Raise_kinds [OF this assms] show False by auto
qed

lemma status_irrelevant:
  "data_status r \<Longrightarrow> loop_body c p d r = loop_body c p d (r\<lparr>status_code := 200\<rparr>)"
  by (simp add: loop_body_def data_status_def BAD_REQUEST_def NO_CONTENT_def)

lemma finish_not_RuntimeError: "finish c d \<noteq> Inl (RuntimeError m)"
  by (auto simp: finish_def join_values_def split: option.splits)

lemma run_dichotomy:
  "continues_upto c net n \<or>
   (\<exists>k<n. continues_upto c net k \<and> (case net k of None \<Rightarrow> True | Some r \<Rightarrow> \<not> more_pages c r))"
proof (induction n)
  case 0
  show ?case by (simp add: continues_upto_0)
next
  case (Suc n)
  then show ?case
  proof
    assume n: "continues_upto c net n"
    show ?thesis
    proof (cases "case net n of None \<Rightarrow> False | Some r \<Rightarrow> more_pages c r")
      case True
      with n show ?thesis by (simp add: continues_upto_Suc)
    next
      case False
      then have "case net n of None \<Rightarrow> True | Some r \<Rightarrow> \<not> more_pages c r"
        by (simp split: option.splits)
      with n show ?thesis by blast
    qed
  next
    assume "\<exists>k<n. continues_upto c net k \<and>
              (case net k of None \<Rightarrow> True | Some r \<Rightarrow> \<not> more_pages c r)"
    then show ?thesis using less_Suc_eq by blast
  qed
qed

lemma RuntimeError_reaches_error_status:
  assumes "fst (get_paginated_dataset fuel net fs st c) = Some (Inl (RuntimeError m))"
  shows "\<exists>k<fuel. continues_upto c net k \<and>
           (case net k of None \<Rightarrow> False | Some r \<Rightarrow> status_code r \<ge> 400)"
proof -
  from run_dichotomy [of c net fuel] show ?thesis
  proof
    assume "continues_upto c net fuel"
    then have "get_paginated_dataset fuel net fs st c = (None, requests fs st c fuel)"
      by (rule run_out_of_fuel)
    with assms show ?thesis by simp
  next
    assume "\<exists>k<fuel. continues_upto c net k \<and>
              (case net k of None \<Rightarrow> True | Some r \<Rightarrow> \<not> more_pages c r)"
    then obtain k where k: "k < fuel" "continues_upto c net k"
      and stop: "case net k of None \<Rightarrow> True | Some r \<Rightarrow> \<not> more_pages c r"
      by blast
    show ?thesis
    proof (cases "net k")
      case None
      with k have "get_paginated_dataset fuel net fs st c =
           (Some (Inl RequestException), requests fs st c (Suc k))"
        by (intro run_None)
      with assms show ?thesis by simp
    next
      case (Some r)
      with stop have nm: "\<not> more_pages c r" by simp
      show ?thesis
      proof (cases "loop_body c (1 + int k) (data_after c net k) r")
        case (Raise e)
        with k Some have "get_paginated_dataset fuel net fs st c =
            (Some (Inl e), requests fs st c (Suc k))"
          by (intro run_Raise)
        with assms have "e = RuntimeError m" by simp
        with Raise have "status_code r \<ge> 400"
          by (intro loop_body_RuntimeError [of c "1 + int k" "data_after c net k" r m]) simp
        with k Some show ?thesis by auto
      next
        case (Break d)
        with k Some have "get_paginated_dataset fuel net fs st c =
            (Some (finish c d), requests fs st c (Suc k))"
          by (intro run_Break)
        with assms finish_not_RuntimeError [of c d m] show ?thesis by simp
      next
        case (Next_page d')
        with nm more_pages_iff [of c r "1 + int k" "data_after c net k"] show ?thesis
          by simp
      qed
    qed
  qed
qed

lemma error_status_raises_RuntimeError:
  assumes "k < fuel" and "continues_upto c net k"
    and "case net k of None \<Rightarrow> False | Some r \<Rightarrow> status_code r \<ge> 400"
  shows "\<exists>m. fst (get_paginated_dataset fuel net fs st c) = Some (Inl (RuntimeError m))"
proof -
  from assms(3) obtain r where r: "net k = Some r" "status_code r \<ge> 400"
    by (cases "net k") auto
  have "get_paginated_dataset fuel net fs st c =
           (Some (Inl (RuntimeError (''Request failed: '' @ resp_text r))),
            requests fs st c (Suc k))"
    using assms(2) r(1) loop_body_bad_request [OF r(2)] assms(1) by (rule run_Raise)
  then show ?thesis by simp
qed

text \<open>
  Claim C10. A call raises the \<^verbatim>\<open>RuntimeError\<close> of a failed request exactly when it
  receives a response with status 400 or above; and a response with any status below 400
  other than 204 (a 1xx or a 3xx as much as 200) goes through the loop exactly as the same
  response with status 200 does: it is consumed as a page of data.
\<close>

theorem RuntimeError_iff_error_status:
  "((\<exists>m. fst (get_paginated_dataset fuel net fs st c) = Some (Inl (RuntimeError m))) =
      (\<exists>k<fuel. continues_upto c net k \<and>
         (case net k of None \<Rightarrow> False | Some r \<Rightarrow> status_code r \<ge> 400))) \<and>
   (\<forall>p d r. data_status r \<longrightarrow>
      loop_body c p d r = loop_body c p d (r\<lparr>status_code := 200\<rparr>))"
proof (intro conjI iffI allI impI)
  assume "\<exists>m. fst (get_paginated_dataset fuel net fs st c) = Some (Inl (RuntimeError m))"
  then obtain m where
    "fst (get_paginated_dataset fuel net fs st c) = Some (Inl (RuntimeError m))" ..
  then show "\<exists>k<fuel. continues_upto c net k \<and>
         (case net k of None \<Rightarrow> False | Some r \<Rightarrow> status_code r \<ge> 400)"
    by (rule RuntimeError_reaches_error_status)
next
  assume "\<exists>k<fuel. continues_upto c net k \<and>
         (case net k of None \<Rightarrow> False | Some r \<Rightarrow> status_code r \<ge> 400)"
  then obtain k where "k < fuel" "continues_upto c net k"
    "case net k of None \<Rightarrow> False | Some r \<Rightarrow> status_code r \<ge> 400"
    by blast
  then show "\<exists>m. fst (get_paginated_dataset fuel net fs st c) = Some (Inl (RuntimeError m))"
    by (rule error_status_raises_RuntimeError)
next
  fix p d r assume "data_status r"
  then show "loop_body c p d r = loop_body c p d (r\<lparr>status_code := 200\<rparr>)"
    by (rule status_irrelevant)
qed

theorem RuntimeError_iff_error_status_witness:
  "(\<exists>m. fst (get_paginated_dataset 6
            (serve [json_response [PInt 1] (PStr ''page=2''), text_response 500 ''down''])
            [''areaType=nation''] [(''date'', Field ''date'')] False)
          = Some (Inl (RuntimeError m))) \<and>
   loop_body True 1 [] (text_response 301 ''a,b'') =
     loop_body True 1 [] ((text_response 301 ''a,b'')\<lparr>status_code := 200\<rparr>) \<and>
   loop_body True 1 [] (text_response 301 ''a,b'') = Next_page [PStr ''a,b'']"
proof -
  let ?net = "serve [json_response [PInt 1] (PStr ''page=2''), text_response 500 ''down'']"
  note inst = RuntimeError_iff_error_status [of 6 ?net "[''areaType=nation'']"
      "[(''date'', Field ''date'')]" False]
  note inst' = RuntimeError_iff_error_status [of 6 ?net "[''areaType=nation'']"
      "[(''date'', Field ''date'')]" True]
  have "Suc 0 < 6 \<and> continues_upto False ?net (Suc 0) \<and>
         (case ?net (Suc 0) of None \<Rightarrow> False | Some r \<Rightarrow> status_code r \<ge> 400)"
    by (simp add: continues_upto_Suc continues_upto_0 serve_Cons_0 serve_Cons_Suc
          more_pages_json_response text_response_def)
  then have "\<exists>k<6. continues_upto False ?net k \<and>
         (case ?net k of None \<Rightarrow> False | Some r \<Rightarrow> status_code r \<ge> 400)"
    by (intro exI [where x = "Suc 0"])
  with inst [THEN conjunct1] have a: "\<exists>m. fst (get_paginated_dataset 6 ?net
            [''areaType=nation''] [(''date'', Field ''date'')] False)
          = Some (Inl (RuntimeError m))"
    by (rule iffD2)
  have "data_status (text_response 301 ''a,b'')"
    by (simp add: data_status_def text_response_def)
  with inst' [THEN conjunct2] have b: "loop_body True 1 [] (text_response 301 ''a,b'') =
     loop_body True 1 [] ((text_response 301 ''a,b'')\<lparr>status_code := 200\<rparr>)"
    by blast
  have c: "loop_body True 1 [] (text_response 301 ''a,b'') = Next_page [PStr ''a,b'']"
    by (simp add: loop_body_def text_response_def BAD_REQUEST_def NO_CONTENT_def strip_def
          is_space_def)
  from a b c show ?thesis by (intro conjI)
qed

section \<open>Dictionary displays\<close>

lemma map_of_setitem: "map_of (setitem d k v) = (map_of d)(k \<mapsto> v)"
  by (induction d) (auto simp: fun_eq_iff)

lemma keys_setitem: "set (map fst (setitem d k v)) = insert k (set (map fst d))"
  by (induction d) auto

lemma distinct_setitem:
  "distinct (map fst d) \<Longrightarrow> distinct (map fst (setitem d k v))"
  by (induction d) (auto simp: keys_setitem simp del: set_map)

lemma foldl_setitem_map_of:
  "map_of (foldl (\<lambda>d kv. setitem d (fst kv) (snd kv)) d es) = map_of d ++ map_of (rev es)"
proof (induction es arbitrary: d)
  case Nil
  show ?case by simp
next
  case (Cons e es)
  have "map_of (foldl (\<lambda>d kv. setitem d (fst kv) (snd kv)) d (e # es)) =
          map_of (foldl (\<lambda>d kv. setitem d (fst kv) (snd kv)) (setitem d (fst e) (snd e)) es)"
    by simp
  also have "\<dots> = map_of (setitem d (fst e) (snd e)) ++ map_of (rev es)"
    by (rule Cons.IH)
  also have "\<dots> = map_of d ++ map_of (rev (e # es))"
    by (cases e) (auto simp: map_of_setitem fun_eq_iff map_add_def split: option.splits)
  finally show ?case .
qed

lemma foldl_setitem_keys:
  "set (map fst (foldl (\<lambda>d kv. setitem d (fst kv) (snd kv)) d es)) =
     set (map fst d) \<union> set (map fst es)"
proof (induction es arbitrary: d)
  case Nil
  show ?case by simp
next
  case (Cons e es)
  have "set (map fst (foldl (\<lambda>d kv. setitem d (fst kv) (snd kv)) d (e # es))) =
          set (map fst (foldl (\<lambda>d kv. setitem d (fst kv) (snd kv)) (setitem d (fst e) (snd e)) es))"
    by simp
  also have "\<dots> = set (map fst (setitem d (fst e) (snd e))) \<union> set (map fst es)"
    by (rule Cons.IH)
  also have "\<dots> = set (map fst d) \<union> set (map fst (e # es))"
    by (simp only: keys_setitem) auto
  finally show ?case .
qed

lemma foldl_setitem_distinct:
  "distinct (map fst d) \<Longrightarrow>
     distinct (map fst (foldl (\<lambda>d kv. setitem d (fst kv) (snd kv)) d es))"
  by (induction es arbitrary: d) (simp_all add: distinct_setitem)

lemma dict_display_last_wins: "map_of (dict_display es) = map_of (rev es)"
  using foldl_setitem_map_of [of "[]" es] by (simp add: dict_display_def)

lemma dict_display_keys: "set (map fst (dict_display es)) = set (map fst es)"
  using foldl_setitem_keys [of "[]" es] by (simp add: dict_display_def del: set_map)

lemma dict_display_distinct: "distinct (map fst (dict_display es))"
  using foldl_setitem_distinct [of "[]" es] by (simp add: dict_display_def)

text \<open>
  Claim C7. The display of \<^verbatim>\<open>DEFAULT_QUERY_STRUCTURE\<close> writes the key
  \<^verbatim>\<open>cumCasesBySpecimenDateRate\<close> twice; the dictionary has it once, bound to the value of
  the later entry, as every key is bound to the value of its last entry; the keys of the
  dictionary are the keys of the display, each once.
\<close>

theorem default_structure_last_key_wins:
  "count_list (map fst DEFAULT_QUERY_STRUCTURE_entries) ''cumCasesBySpecimenDateRate'' = 2 \<and>
   count_list (map fst DEFAULT_QUERY_STRUCTURE) ''cumCasesBySpecimenDateRate'' = 1 \<and>
   map_of DEFAULT_QUERY_STRUCTURE ''cumCasesBySpecimenDateRate'' =
     Some (snd (last (filter (\<lambda>kv. fst kv = ''cumCasesBySpecimenDateRate'')
                        DEFAULT_QUERY_STRUCTURE_entries))) \<and>
   map_of DEFAULT_QUERY_STRUCTURE = map_of (rev DEFAULT_QUERY_STRUCTURE_entries) \<and>
   set (map fst DEFAULT_QUERY_STRUCTURE) = set (map fst DEFAULT_QUERY_STRUCTURE_entries) \<and>
   distinct (map fst DEFAULT_QUERY_STRUCTURE) \<and>
   length DEFAULT_QUERY_STRUCTURE_entries = 35 \<and> length DEFAULT_QUERY_STRUCTURE = 34"
proof -
  have 1: "count_list (map fst DEFAULT_QUERY_STRUCTURE_entries) ''cumCasesBySpecimenDateRate'' = 2"
    by code_simp
  have 2: "count_list (map fst DEFAULT_QUERY_STRUCTURE) ''cumCasesBySpecimenDateRate'' = 1"
    by code_simp
  have 3: "map_of DEFAULT_QUERY_STRUCTURE ''cumCasesBySpecimenDateRate'' =
     Some (snd (last (filter (\<lambda>kv. fst kv = ''cumCasesBySpecimenDateRate'')
                        DEFAULT_QUERY_STRUCTURE_entries)))"
    by code_simp
  have 4: "map_of DEFAULT_QUERY_STRUCTURE = map_of (rev DEFAULT_QUERY_STRUCTURE_entries)"
    unfolding DEFAULT_QUERY_STRUCTURE_def by (rule dict_display_last_wins)
  have 5: "set (map fst DEFAULT_QUERY_STRUCTURE) = set (map fst DEFAULT_QUERY_STRUCTURE_entries)"
    unfolding DEFAULT_QUERY_STRUCTURE_def by (rule dict_display_keys)
  have 6: "distinct (map fst DEFAULT_QUERY_STRUCTURE)"
    unfolding DEFAULT_QUERY_STRUCTURE_def by (rule dict_display_distinct)
  have 7: "length DEFAULT_QUERY_STRUCTURE_entries = 35"
    by (simp add: DEFAULT_QUERY_STRUCTURE_entries_def)
  have 8: "length DEFAULT_QUERY_STRUCTURE = 34"
    by code_simp
  from 1 2 3 4 5 6 7 8 show ?thesis by (intro conjI)
qed

section \<open>The defaults of \<^verbatim>\<open>get_latest_data\<close>\<close>

lemma sent_params:
  "map filters_param (snd (get_paginated_dataset fuel net fs st c)) =
     replicate (length (snd (get_paginated_dataset fuel net fs st c))) (join '';'' fs)"
  "map structure_param (snd (get_paginated_dataset fuel net fs st c)) =
     replicate (length (snd (get_paginated_dataset fuel net fs st c))) (dumps st)"
  "map format_param (snd (get_paginated_dataset fuel net fs st c)) =
     replicate (length (snd (get_paginated_dataset fuel net fs st c)))
       (if \<not> c then ''json'' else ''csv'')"
proof -
  let ?sent = "snd (get_paginated_dataset fuel net fs st c)"
  let ?ap = "mk_request (join '';'' fs) (dumps st) (if \<not> c then ''json'' else ''csv'')"
  have s: "?sent = map (\<lambda>i. ?ap (1 + int i)) [0..<length ?sent]"
    using requests_sent [of fuel net fs st c] .
  have "map filters_param (map (\<lambda>i. ?ap (1 + int i)) [0..<length ?sent])
          = replicate (length ?sent) (join '';'' fs)"
    by (simp add: mk_request_sel comp_def map_replicate_const)
  with s show "map filters_param ?sent = replicate (length ?sent) (join '';'' fs)"
    by metis
  have "map structure_param (map (\<lambda>i. ?ap (1 + int i)) [0..<length ?sent])
          = replicate (length ?sent) (dumps st)"
    by (simp add: mk_request_sel comp_def map_replicate_const)
  with s show "map structure_param ?sent = replicate (length ?sent) (dumps st)"
    by metis
  have "map format_param (map (\<lambda>i. ?ap (1 + int i)) [0..<length ?sent])
          = replicate (length ?sent) (if \<not> c then ''json'' else ''csv'')"
    by (simp add: mk_request_sel comp_def map_replicate_const)
  with s show "map format_param ?sent =
      replicate (length ?sent) (if \<not> c then ''json'' else ''csv'')"
    by metis
qed

lemma get_latest_data_eq:
  "get_latest_data fuel net fo so =
     get_paginated_dataset fuel net
       (case fo of None \<Rightarrow> [''areaType=region''] | Some fs \<Rightarrow> fs)
       (case so of None \<Rightarrow> DEFAULT_QUERY_STRUCTURE | Some s \<Rightarrow> s) False"
  by (cases fo) (simp_all add: get_latest_data_def)

text \<open>
  Claim C6. \<^verbatim>\<open>get_latest_data\<close> without filters fetches with the one filter
  \<^verbatim>\<open>areaType=region\<close>, without a structure it fetches with \<^verbatim>\<open>DEFAULT_QUERY_STRUCTURE\<close>
  as it is, and it always asks for JSON: these are the parameters of every request it
  sends.
\<close>

theorem get_latest_data_defaults:
  "get_latest_data fuel net None so =
     get_paginated_dataset fuel net [''areaType=region'']
       (case so of None \<Rightarrow> DEFAULT_QUERY_STRUCTURE | Some s \<Rightarrow> s) False \<and>
   get_latest_data fuel net fo None =
     get_paginated_dataset fuel net (case fo of None \<Rightarrow> [''areaType=region''] | Some fs \<Rightarrow> fs)
       DEFAULT_QUERY_STRUCTURE False \<and>
   map filters_param (snd (get_latest_data fuel net None so)) =
     replicate (length (snd (get_latest_data fuel net None so))) ''areaType=region'' \<and>
   map structure_param (snd (get_latest_data fuel net fo None)) =
     replicate (length (snd (get_latest_data fuel net fo None))) (dumps DEFAULT_QUERY_STRUCTURE) \<and>
   map format_param (snd (get_latest_data fuel net fo so)) =
     replicate (length (snd (get_latest_data fuel net fo so))) ''json''"
proof (intro conjI)
  show "get_latest_data fuel net None so =
     get_paginated_dataset fuel net [''areaType=region'']
       (case so of None \<Rightarrow> DEFAULT_QUERY_STRUCTURE | Some s \<Rightarrow> s) False"
    by (simp add: get_latest_data_eq)
  show "get_latest_data fuel net fo None =
     get_paginated_dataset fuel net (case fo of None \<Rightarrow> [''areaType=region''] | Some fs \<Rightarrow> fs)
       DEFAULT_QUERY_STRUCTURE False"
    by (simp add: get_latest_data_eq)
  show "map filters_param (snd (get_latest_data fuel net None so)) =
     replicate (length (snd (get_latest_data fuel net None so))) ''areaType=region''"
    using sent_params(1) [of fuel net "[''areaType=region'']"
        "case so of None \<Rightarrow> DEFAULT_QUERY_STRUCTURE | Some s \<Rightarrow> s" False]
    by (simp add: get_latest_data_eq)
  show "map structure_param (snd (get_latest_data fuel net fo None)) =
     replicate (length (snd (get_latest_data fuel net fo None))) (dumps DEFAULT_QUERY_STRUCTURE)"
    using sent_params(2) [of fuel net "case fo of None \<Rightarrow> [''areaType=region''] | Some fs \<Rightarrow> fs"
        DEFAULT_QUERY_STRUCTURE False]
    by (simp add: get_latest_data_eq)
  show "map format_param (snd (get_latest_data fuel net fo so)) =
     replicate (length (snd (get_latest_data fuel net fo so))) ''json''"
    using sent_params(3) [of fuel net "case fo of None \<Rightarrow> [''areaType=region''] | Some fs \<Rightarrow> fs"
        "case so of None \<Rightarrow> DEFAULT_QUERY_STRUCTURE | Some s \<Rightarrow> s" False]
    by (simp add: get_latest_data_eq)
qed

section \<open>The serialisation adds no space\<close>

lemma hex_digit_not_space:
  assumes "n < 16"
  shows "hex_digit n \<noteq> CHR '' ''"
proof
  assume "hex_digit n = CHR '' ''"
  then have "of_char (hex_digit n) = (32 :: nat)" by simp
  moreover have "of_char (hex_digit n) = (if n < 10 then 48 + n else 87 + n)"
    using assms by (simp add: hex_digit_def)
  ultimately show False
    by (simp split: if_splits)
qed

lemma escape_char_not_space:
  assumes "c \<noteq> CHR '' ''"
  shows "CHR '' '' \<notin> set (escape_char c)"
proof -
  have d: "(of_char c :: nat) div 16 < 16"
    by (rule less_mult_imp_div_less) simp
  have m: "(of_char c :: nat) mod 16 < 16"
    by simp
  from hex_digit_not_space [OF d] hex_digit_not_space [OF m] assms show ?thesis
    by (auto simp: escape_char_def Let_def)
qed

lemma encode_str_not_space:
  assumes "CHR '' '' \<notin> set s"
  shows "CHR '' '' \<notin> set (encode_str s)"
proof -
  have "CHR '' '' \<notin> set (escape_char c)" if "c \<in> set s" for c
  proof (rule escape_char_not_space)
    from that assms show "c \<noteq> CHR '' ''" by auto
  qed
  then show ?thesis by (simp add: encode_str_def)
qed

lemma join_avoids:
  "c \<notin> set sep \<Longrightarrow> \<forall>x \<in> set xs. c \<notin> set x \<Longrightarrow> c \<notin> set (join sep xs)"
  by (induction sep xs rule: join.induct) simp_all

lemma dumps_not_space:
  "(\<forall>s \<in> set (value_strings v). CHR '' '' \<notin> set s) \<longrightarrow> CHR '' '' \<notin> set (dumps_value v)"
  "(\<forall>s \<in> set (items_strings kvs). CHR '' '' \<notin> set s) \<longrightarrow>
     (\<forall>x \<in> set (dumps_items kvs). CHR '' '' \<notin> set x)"
proof (induction v and kvs rule: dumps_value_dumps_items.induct)
  case (1 s)
  show ?case by (simp add: encode_str_not_space)
next
  case (2 kvs)
  show ?case
  proof
    assume a: "\<forall>s \<in> set (value_strings (Nested kvs)). CHR '' '' \<notin> set s"
    with 2 have "\<forall>x \<in> set (dumps_items kvs). CHR '' '' \<notin> set x" by simp
    then have "CHR '' '' \<notin> set (join '','' (dumps_items kvs))"
      by (intro join_avoids) simp_all
    then show "CHR '' '' \<notin> set (dumps_value (Nested kvs))" by simp
  qed
next
  case 3
  show ?case by simp
next
  case (4 kv kvs)
  then show ?case by (simp add: encode_str_not_space)
qed

lemma dumps_space_free: "space_free st \<Longrightarrow> CHR '' '' \<notin> set (dumps st)"
  using dumps_not_space(1) [of "Nested st"]
  by (simp add: space_free_def dumps_def list_all_iff)

text \<open>
  Claim C5. Every request of a call carries \<open>filters\<close> equal to the filter strings
  joined by \<open>;\<close> in the order given, and \<open>structure\<close> equal to the compact
  serialisation of the structure, which has no space unless a key or a field name of the
  structure has one; both parameters are the same on every page.
\<close>

theorem fixed_parameters:
  "map filters_param (snd (get_paginated_dataset fuel net fs st c)) =
     replicate (length (snd (get_paginated_dataset fuel net fs st c))) (join '';'' fs) \<and>
   map structure_param (snd (get_paginated_dataset fuel net fs st c)) =
     replicate (length (snd (get_paginated_dataset fuel net fs st c))) (dumps st) \<and>
   (space_free st \<longrightarrow> CHR '' '' \<notin> set (dumps st))"
  using sent_params(1,2) [of fuel net fs st c] dumps_space_free [of st]
  by (intro conjI impI)

theorem fixed_parameters_witness:
  "map filters_param (snd (get_paginated_dataset 5
       (serve [json_response [PInt 1] (PStr ''page=2''), json_response [PInt 2] PNone])
       [''areaType=nation'', ''areaCode=E92000001'']
       [(''date'', Field ''date''), (''cases'', Nested [(''new'', Field ''newCases'')])] False)) =
     [''areaType=nation;areaCode=E92000001'', ''areaType=nation;areaCode=E92000001''] \<and>
   map structure_param (snd (get_paginated_dataset 5
       (serve [json_response [PInt 1] (PStr ''page=2''), json_response [PInt 2] PNone])
       [''areaType=nation'', ''areaCode=E92000001'']
       [(''date'', Field ''date''), (''cases'', Nested [(''new'', Field ''newCases'')])] False)) =
     replicate 2
       (''{'' @ [CHR 0x22] @ ''date'' @ [CHR 0x22] @ '':'' @ [CHR 0x22] @ ''date'' @ [CHR 0x22] @
        '','' @ [CHR 0x22] @ ''cases'' @ [CHR 0x22] @ '':{'' @ [CHR 0x22] @ ''new'' @ [CHR 0x22] @
        '':'' @ [CHR 0x22] @ ''newCases'' @ [CHR 0x22] @ ''}}'') \<and>
   CHR '' '' \<notin> set (dumps [(''date'', Field ''date''),
                              (''cases'', Nested [(''new'', Field ''newCases'')])])"
proof -
  let ?net = "serve [json_response [PInt 1] (PStr ''page=2''), json_response [PInt 2] PNone]"
  let ?fs = "[''areaType=nation'', ''areaCode=E92000001'']"
  let ?st = "[(''date'', Field ''date''), (''cases'', Nested [(''new'', Field ''newCases'')])]"
  have 1: "continues_upto False ?net (Suc 0)"
    by (simp add: continues_upto_Suc continues_upto_0 serve_Cons_0 more_pages_json_response)
  have 2: "?net (Suc 0) = Some (json_response [PInt 2] PNone)"
    by (simp add: serve_Cons_0 serve_Cons_Suc)
  have 3: "loop_body False (1 + int (Suc 0)) (data_after False ?net (Suc 0))
             (json_response [PInt 2] PNone) = Break (data_after False ?net (Suc 0) @ [PInt 2])"
    using loop_body_json_page [OF json_page_json_response, of "1 + int (Suc 0)"
        "data_after False ?net (Suc 0)" "[PInt 2]" PNone]
    by simp
  have "get_paginated_dataset 5 ?net ?fs ?st False =
          (Some (finish False (data_after False ?net (Suc 0) @ [PInt 2])),
           requests ?fs ?st False (Suc (Suc 0)))"
    using 1 2 3 by (rule run_Break) simp
  then have len: "length (snd (get_paginated_dataset 5 ?net ?fs ?st False)) = 2"
    by (simp add: requests_def)
  have j: "join '';'' ?fs = ''areaType=nation;areaCode=E92000001''"
    by simp
  have d: "dumps ?st =
       ''{'' @ [CHR 0x22] @ ''date'' @ [CHR 0x22] @ '':'' @ [CHR 0x22] @ ''date'' @ [CHR 0x22] @
        '','' @ [CHR 0x22] @ ''cases'' @ [CHR 0x22] @ '':{'' @ [CHR 0x22] @ ''new'' @ [CHR 0x22] @
        '':'' @ [CHR 0x22] @ ''newCases'' @ [CHR 0x22] @ ''}}''"
    by (simp add: dumps_def encode_str_def escape_char_def)
  have sf: "space_free ?st"
    by (simp add: space_free_def)
  have r: "replicate 2 x = [x, x]" for x :: string
    by (simp add: numeral_2_eq_2)
  from fixed_parameters [of 5 ?net ?fs ?st False] sf
  show ?thesis
    unfolding len j d r by simp
qed

section \<open>How many requests a call sends\<close>

lemma run_length:
  "(fst (get_paginated_dataset fuel net fs st c) = None \<and>
      length (snd (get_paginated_dataset fuel net fs st c)) = fuel) \<or>
   (\<exists>res. fst (get_paginated_dataset fuel net fs st c) = Some res \<and>
      0 < length (snd (get_paginated_dataset fuel net fs st c)) \<and>
      length (snd (get_paginated_dataset fuel net fs st c)) \<le> fuel)"
proof -
  have len: "length (requests fs st c n) = n" for n
    by (simp add: requests_def)
  from run_dichotomy [of c net fuel] show ?thesis
  proof
    assume "continues_upto c net fuel"
    then have "get_paginated_dataset fuel net fs st c = (None, requests fs st c fuel)"
      by (rule run_out_of_fuel)
    then show ?thesis by (simp add: len)
  next
    assume "\<exists>k<fuel. continues_upto c net k \<and>
              (case net k of None \<Rightarrow> True | Some r \<Rightarrow> \<not> more_pages c r)"
    then obtain k where k: "k < fuel" "continues_upto c net k"
      and stop: "case net k of None \<Rightarrow> True | Some r \<Rightarrow> \<not> more_pages c r"
      by blast
    have "\<exists>res. get_paginated_dataset fuel net fs st c = (Some res, requests fs st c (Suc k))"
    proof (cases "net k")
      case None
      with k have "get_paginated_dataset fuel net fs st c =
           (Some (Inl RequestException), requests fs st c (Suc k))"
        by (intro run_None)
      then show ?thesis by blast
    next
      case (Some r)
      with stop have nm: "\<not> more_pages c r" by simp
      show ?thesis
      proof (cases "loop_body c (1 + int k) (data_after c net k) r")
        case (Raise e)
        with k Some have "get_paginated_dataset fuel net fs st c =
            (Some (Inl e), requests fs st c (Suc k))"
          by (intro run_Raise)
        then show ?thesis by blast
      next
        case (Break d)
        with k Some have "get_paginated_dataset fuel net fs st c =
            (Some (finish c d), requests fs st c (Suc k))"
          by (intro run_Break)
        then show ?thesis by blast
      next
        case (Next_page d')
        with nm more_pages_iff [of c r "1 + int k" "data_after c net k"] show ?thesis
          by simp
      qed
    qed
    then obtain res where
      "get_paginated_dataset fuel net fs st c = (Some res, requests fs st c (Suc k))" ..
    with k(1) show ?thesis by (simp add: len)
  qed
qed

text \<open>
  Claim C9. The \<open>k\<close>-th request of a call carries \<open>page = k\<close>: the page numbers of
  the requests sent are \<open>1, 2, 3, \<dots>\<close> in this order, with none skipped, repeated or
  decreased. This holds for every network and every amount of fuel, so for every prefix
  of a call that never ends as well: a call still running has sent as many requests as it
  had fuel, and a call that has ended has sent at least one.
\<close>

theorem page_numbers_consecutive:
  "map page_param (snd (get_paginated_dataset fuel net fs st c)) =
     map int [1..<Suc (length (snd (get_paginated_dataset fuel net fs st c)))] \<and>
   ((fst (get_paginated_dataset fuel net fs st c) = None \<and>
      length (snd (get_paginated_dataset fuel net fs st c)) = fuel) \<or>
    (\<exists>res. fst (get_paginated_dataset fuel net fs st c) = Some res \<and>
      0 < length (snd (get_paginated_dataset fuel net fs st c)) \<and>
      length (snd (get_paginated_dataset fuel net fs st c)) \<le> fuel))"
proof (rule conjI)
  let ?sent = "snd (get_paginated_dataset fuel net fs st c)"
  let ?ap = "mk_request (join '';'' fs) (dumps st) (if \<not> c then ''json'' else ''csv'')"
  have "map page_param ?sent = map page_param (map (\<lambda>i. ?ap (1 + int i)) [0..<length ?sent])"
    using requests_sent [of fuel net fs st c] by simp
  also have "\<dots> = map (\<lambda>i. 1 + int i) [0..<length ?sent]"
    by (simp add: mk_request_sel comp_def)
  also have "\<dots> = map int (map Suc [0..<length ?sent])"
    by simp
  also have "\<dots> = map int [1..<Suc (length ?sent)]"
    by (simp only: map_Suc_upt One_nat_def)
  finally show "map page_param ?sent = map int [1..<Suc (length ?sent)]" .
next
  show "(fst (get_paginated_dataset fuel net fs st c) = None \<and>
      length (snd (get_paginated_dataset fuel net fs st c)) = fuel) \<or>
    (\<exists>res. fst (get_paginated_dataset fuel net fs st c) = Some res \<and>
      0 < length (snd (get_paginated_dataset fuel net fs st c)) \<and>
      length (snd (get_paginated_dataset fuel net fs st c)) \<le> fuel)"
    by (rule run_length)
qed

end
